theory Spec2Isabelle
  imports Complex_Main "HOL-Library.Sublist"
begin

section \<open>Python strings\<close>

text \<open>
  A Python \<open>str\<close> is modelled as a \<open>string\<close>, one \<open>char\<close> per character. The embedding
  follows Python on ASCII text (code points below 128): \<open>is_space\<close> is \<open>str.isspace\<close>
  and the regular expression class \<open>\s\<close> on ASCII, \<open>char_upper\<close> is \<open>str.upper\<close> on ASCII.
  Characters from 128 on are treated as caseless and as not being white space.
\<close>

datatype py_error = IndexError | KeyError | ZeroDivisionError | FileNotFoundError | RuntimeError

definition is_space :: "char \<Rightarrow> bool" where
  \<comment> \<open>the ASCII white space of Python: tab, newline, VT, FF, CR, FS, GS, RS, US, space\<close>
  "is_space c = (let n = (of_char c :: nat) in (9 \<le> n \<and> n \<le> 13) \<or> (28 \<le> n \<and> n \<le> 32))"

definition char_upper :: "char \<Rightarrow> char" where
  "char_upper c = (let n = (of_char c :: nat) in if 97 \<le> n \<and> n \<le> 122 then char_of (n - 32) else c)"

definition upper :: "string \<Rightarrow> string" where
  \<comment> \<open>\<open>s.upper()\<close>\<close>
  "upper s = map char_upper s"

definition endswith :: "string \<Rightarrow> string \<Rightarrow> bool" where
  \<comment> \<open>\<open>s.endswith(suf)\<close>\<close>
  "endswith s suf = suffix suf s"

definition strip :: "string \<Rightarrow> string" where
  \<comment> \<open>\<open>s.strip()\<close>: white space removed at both ends\<close>
  "strip s = rev (dropWhile is_space (rev (dropWhile is_space s)))"

text \<open>
  \<open>s.replace(old, new)\<close> for a non-empty \<open>old\<close>: the occurrences of \<open>old\<close> are found from
  left to right without overlap. The source only calls it with non-empty patterns.
\<close>

fun str_replace :: "string \<Rightarrow> string \<Rightarrow> string \<Rightarrow> string" where
  "str_replace old new [] = []"
| "str_replace old new (c # cs) =
     (if old \<noteq> [] \<and> prefix old (c # cs)
      then new @ str_replace old new (drop (length old) (c # cs))
      else c # str_replace old new cs)"

text \<open>
  \<open>s.split(sep)\<close> for a non-empty \<open>sep\<close>: the pieces between the occurrences of \<open>sep\<close>,
  found from left to right without overlap. The source only calls it with \<open>"SQL:"\<close>.
\<close>

fun str_split :: "string \<Rightarrow> string \<Rightarrow> string list" where
  "str_split sep [] = [[]]"
| "str_split sep (c # cs) =
     (if sep \<noteq> [] \<and> prefix sep (c # cs)
      then [] # str_split sep (drop (length sep) (c # cs))
      else (case str_split sep cs of
              [] \<Rightarrow> [[c]]
            | p # ps \<Rightarrow> (c # p) # ps))"

definition py_last :: "'a list \<Rightarrow> py_error + 'a" where
  \<comment> \<open>\<open>xs[-1]\<close>, which raises IndexError on an empty list\<close>
  "py_last xs = (if xs = [] then Inl IndexError else Inr (last xs))"

section \<open>The regular expressions of \<open>prompting_utils.py\<close>\<close>

text \<open>
  \<open>re.search(r'(SELECT\s+.*?;)', s, re.DOTALL | re.IGNORECASE)\<close>. A match at a position
  needs the six letters of SELECT in any case, then at least one white-space character, and
  a semicolon somewhere later; since a semicolon is no white space, the lazy \<open>.*?\<close> stops at
  the first semicolon after the first white-space character, however many white-space
  characters the greedy \<open>\s+\<close> has taken. \<open>re.search\<close> returns the match at the leftmost
  position that has one.
\<close>

definition match_select_at :: "string \<Rightarrow> string option" where
  "match_select_at s =
     (if upper (take 6 s) = ''SELECT'' \<and> 6 < length s \<and> is_space (s ! 6)
         \<and> CHR '';'' \<in> set (drop 7 s)
      then Some (take 7 s @ takeWhile (\<lambda>c. c \<noteq> CHR '';'') (drop 7 s) @ '';'')
      else None)"

fun re_search_select :: "string \<Rightarrow> string option" where
  "re_search_select [] = None"
| "re_search_select (c # cs) =
     (case match_select_at (c # cs) of
        Some m \<Rightarrow> Some m
      | None \<Rightarrow> re_search_select cs)"

text \<open>
  \<open>re.sub(r'```(sql)?', '', s, flags=re.IGNORECASE)\<close>: every three backticks are removed,
  together with the letters \<open>sql\<close> in any case when they follow at once.
\<close>

fun re_sub_fence :: "string \<Rightarrow> string" where
  "re_sub_fence [] = []"
| "re_sub_fence (c # cs) =
     (if prefix [CHR 0x60, CHR 0x60, CHR 0x60] (c # cs)
      then (if upper (take 3 (drop 3 (c # cs))) = ''SQL''
            then re_sub_fence (drop 6 (c # cs))
            else re_sub_fence (drop 3 (c # cs)))
      else c # re_sub_fence cs)"

text \<open>\<open>re.sub(r'\s+', ' ', s)\<close>: every maximal run of white space becomes one space.\<close>

function re_sub_ws :: "string \<Rightarrow> string" where
  "re_sub_ws [] = []"
| "re_sub_ws (c # cs) =
     (if is_space c then CHR '' '' # re_sub_ws (dropWhile is_space cs)
      else c # re_sub_ws cs)"
  by pat_completeness auto
termination
  by (relation "measure length") (auto simp: less_Suc_eq_le length_dropWhile_le)

section \<open>\<open>extract_sql_query\<close> (\<open>prompting_utils.py\<close>)\<close>

definition BOS :: string where "BOS = ''<bos>''"
definition EOS :: string where "EOS = ''<eos>''"

definition strip_special_tokens :: "string \<Rightarrow> string" where
  \<comment> \<open>lines 19 to 21\<close>
  "strip_special_tokens response =
     (let response = str_replace EOS [] (str_replace BOS [] response);
          response = str_replace ''</s>'' [] (str_replace ''<s>'' [] response);
          response = str_replace ''<eos>'' [] (str_replace ''<bos>'' [] response)
      in response)"

definition after_last_label :: "string \<Rightarrow> py_error + string" where
  \<comment> \<open>lines 24 to 26: the pieces are those of the upper-cased response\<close>
  "after_last_label response =
     (if sublist ''SQL:'' (upper response)
      then py_last (str_split ''SQL:'' (upper response))
      else Inr response)"

definition select_candidate :: "string \<Rightarrow> string" where
  \<comment> \<open>lines 29 and 30\<close>
  "select_candidate response =
     (case re_search_select response of Some m \<Rightarrow> m | None \<Rightarrow> response)"

definition clean_query :: "string \<Rightarrow> string" where
  \<comment> \<open>lines 32 to 34\<close>
  "clean_query query =
     (let query = re_sub_fence query;
          query = str_replace [CHR 0x0A] '' '' query;
          query = strip (re_sub_ws query)
      in query)"

definition terminate_query :: "string \<Rightarrow> string" where
  \<comment> \<open>lines 36 to 38\<close>
  "terminate_query query =
     (if query \<noteq> [] \<and> \<not> endswith query '';'' then query @ '';'' else query)"

definition extract_sql_query :: "string \<Rightarrow> py_error + string" where
  "extract_sql_query response =
     (case after_last_label (strip_special_tokens response) of
        Inl e \<Rightarrow> Inl e
      | Inr response \<Rightarrow> Inr (terminate_query (clean_query (select_candidate response))))"

section \<open>\<open>prompting.py\<close>\<close>

definition instruct0 :: string where
  "instruct0 = ''Convert English questions to SQL queries.'' @ [CHR 0x0A, CHR 0x0A]"

definition instruct1 :: string where
  "instruct1 = ''Convert English questions to SQL queries for a flight database. Use proper SQL syntax with correct table joins and aliases. Output only the SQL query.'' @ [CHR 0x0A, CHR 0x0A]"

definition instruct2 :: string where
  "instruct2 = ''Convert English questions to SQL queries for a flight database. Use proper SQL syntax with SELECT, FROM, WHERE, and JOIN clauses. Always use table aliases like flight_1, city_1, airport_service_1, etc. Join tables correctly through their foreign key relationships. End all queries with a semicolon.'' @ [CHR 0x0A, CHR 0x0A]"

definition instruction_text :: "int \<Rightarrow> string option \<Rightarrow> string" where
  \<comment> \<open>lines 32 to 42 of \<open>create_prompt\<close>; \<open>None\<close> and the empty string are both falsy\<close>
  "instruction_text ptype schema =
     (if ptype = 0 then instruct0
      else if ptype = 1 then instruct1
      else instruct2 @
        (case schema of
           None \<Rightarrow> []
         | Some sc \<Rightarrow> if sc \<noteq> [] then ''Schema: '' @ take 300 sc @ [CHR 0x0A, CHR 0x0A] else []))"

fun examples_loop :: "string list \<Rightarrow> string list \<Rightarrow> nat list \<Rightarrow> string \<Rightarrow> py_error + string" where
  \<comment> \<open>the body of the \<open>for idx in range(...)\<close> loop, lines 47 to 51\<close>
  "examples_loop train_x train_y [] instruct = Inr instruct"
| "examples_loop train_x train_y (idx # rest) instruct =
     (if \<not> idx < length train_y then Inl IndexError
      else let sql = strip (train_y ! idx);
               sql = (if \<not> endswith sql '';'' then sql @ '';'' else sql)
           in if \<not> idx < length train_x then Inl IndexError
              else examples_loop train_x train_y rest
                     (instruct @ train_x ! idx @ [CHR 0x0A] @ sql @ [CHR 0x0A, CHR 0x0A]))"

definition create_prompt ::
  "string \<Rightarrow> int \<Rightarrow> string list option \<Rightarrow> string list option \<Rightarrow> string option \<Rightarrow> int
     \<Rightarrow> py_error + string" where
  "create_prompt sentence k train_x train_y schema ptype =
     (let instruct = instruction_text ptype schema in
      case (case (train_x, train_y) of
              (Some xs, Some ys) \<Rightarrow>
                if k > 0 \<and> xs \<noteq> [] \<and> ys \<noteq> []
                then examples_loop xs ys [0 ..< nat (min k (int (length xs)))] instruct
                else Inr instruct
            | _ \<Rightarrow> Inr instruct) of
        Inl e \<Rightarrow> Inl e
      | Inr instruct \<Rightarrow> Inr (instruct @ sentence))"

definition strip_prompt :: "string \<Rightarrow> string \<Rightarrow> string" where
  \<comment> \<open>lines 98 and 99 of \<open>exp_kshot\<close>\<close>
  "strip_prompt prompt response =
     (if length prompt < length response then strip (drop (length prompt) response)
      else response)"

text \<open>
  The generation loop. The tokenizer and the model are outside the repository: \<open>generate i p\<close>
  stands for the decoded output of the model on prompt \<open>p\<close> at iteration \<open>i\<close> (the sampling
  is not a function of the prompt alone). The diagnostic printing is left out.
\<close>

fun exp_kshot_loop ::
  "(nat \<Rightarrow> string \<Rightarrow> string) \<Rightarrow> int \<Rightarrow> string list option \<Rightarrow> string list option
     \<Rightarrow> string option \<Rightarrow> int \<Rightarrow> (nat \<times> string) list \<Rightarrow> string list \<times> string list
     \<Rightarrow> py_error + (string list \<times> string list)" where
  "exp_kshot_loop generate k train_x train_y schema ptype [] acc = Inr acc"
| "exp_kshot_loop generate k train_x train_y schema ptype ((i, sentence) # rest) (raw_outputs, extracted_queries) =
     (case create_prompt sentence k train_x train_y schema ptype of
        Inl e \<Rightarrow> Inl e
      | Inr prompt \<Rightarrow>
          (let response = strip_prompt prompt (generate i prompt) in
           case extract_sql_query response of
             Inl e \<Rightarrow> Inl e
           | Inr extracted_query \<Rightarrow>
               exp_kshot_loop generate k train_x train_y schema ptype rest
                 (raw_outputs @ [response], extracted_queries @ [extracted_query])))"

definition exp_kshot ::
  "(nat \<Rightarrow> string \<Rightarrow> string) \<Rightarrow> string list \<Rightarrow> int \<Rightarrow> string list option \<Rightarrow> string list option
     \<Rightarrow> string option \<Rightarrow> int \<Rightarrow> py_error + (string list \<times> string list)" where
  "exp_kshot generate inputs k train_x train_y schema ptype =
     exp_kshot_loop generate k train_x train_y schema ptype (zip [0 ..< length inputs] inputs) ([], [])"

text \<open>
  \<open>eval_outputs\<close>: \<open>compute_metrics\<close> is an external collaborator, so its result is a
  parameter, and the writing of the queries and records to files is left out. Python's \<open>/\<close> on integers gives the double nearest to the quotient; the model
  keeps the exact quotient as a rational.
\<close>

definition py_truediv :: "int \<Rightarrow> int \<Rightarrow> py_error + rat" where
  "py_truediv a b = (if b = 0 then Inl ZeroDivisionError else Inr (of_int a / of_int b))"

definition count_errors :: "string list \<Rightarrow> int" where
  \<comment> \<open>\<open>sum(1 for msg in error_msgs if msg != "")\<close>\<close>
  "count_errors error_msgs = fold (\<lambda>msg acc. if msg \<noteq> [] then acc + 1 else acc) error_msgs 0"

definition eval_outputs ::
  "rat \<times> rat \<times> rat \<times> string list \<Rightarrow> py_error + (rat \<times> rat \<times> rat \<times> string list \<times> rat)" where
  "eval_outputs metrics =
     (case metrics of (sql_em, record_em, record_f1, error_msgs) \<Rightarrow>
        (case (if length error_msgs > 0
               then py_truediv (count_errors error_msgs) (int (length error_msgs))
               else Inr 0) of
           Inl e \<Rightarrow> Inl e
         | Inr error_rate \<Rightarrow> Inr (sql_em, record_em, record_f1, error_msgs, error_rate)))"

section \<open>\<open>load_data.py\<close>\<close>

text \<open>
  The T5 tokenizer is an external library; the model takes what the source uses of it as a
  record of functions. \<open>tok_call max_length text\<close> is the call of the tokenizer on a text
  (\<open>Some n\<close> for \<open>truncation=True, max_length=n\<close>) and gives the pair of \<open>input_ids\<close> and
  \<open>attention_mask\<close>. A one-dimensional tensor is a list of integers, a two-dimensional one
  a list of rows. The file system is a map from paths to the lines of the files.
\<close>

record tokenizer =
  tok_call :: "nat option \<Rightarrow> string \<Rightarrow> int list \<times> int list"
  convert_tokens_to_ids :: "string \<Rightarrow> int"
  eos_token_id :: int

record example =
  encoder_input_ids :: "int list"
  encoder_attention_mask :: "int list"
  decoder_input_ids :: "int list option"
  decoder_target_ids :: "int list option"
  decoder_start_token :: int

definition PAD_IDX :: int where "PAD_IDX = 0"
definition T5_BOS :: string where "T5_BOS = ''<extra_id_0>''"

definition path_join :: "string \<Rightarrow> string \<Rightarrow> string" where
  \<comment> \<open>\<open>os.path.join\<close> of two components on a POSIX system\<close>
  "path_join a b =
     (if prefix ''/'' b then b
      else if a = [] \<or> endswith a ''/'' then a @ b
      else a @ ''/'' @ b)"

definition load_lines :: "(string \<rightharpoonup> string list) \<Rightarrow> string \<Rightarrow> py_error + string list" where
  "load_lines fs path =
     (case fs path of
        None \<Rightarrow> Inl FileNotFoundError
      | Some lines \<Rightarrow> Inr (map strip lines))"

definition encoder_prompt :: "string \<Rightarrow> string" where
  "encoder_prompt nl_in = ''Convert the following English to SQL query: '' @ nl_in"

definition test_example :: "tokenizer \<Rightarrow> string \<Rightarrow> example" where
  \<comment> \<open>the body of the loop of lines 50 to 57\<close>
  "test_example tokenizer nl_in =
     (let encoder_in = tok_call tokenizer (Some 512) (encoder_prompt nl_in);
          decoder_begin = convert_tokens_to_ids tokenizer T5_BOS
      in \<lparr>encoder_input_ids = fst encoder_in,
          encoder_attention_mask = snd encoder_in,
          decoder_input_ids = None,
          decoder_target_ids = None,
          decoder_start_token = decoder_begin\<rparr>)"

definition train_example :: "tokenizer \<Rightarrow> string \<times> string \<Rightarrow> example" where
  \<comment> \<open>the body of the loop of lines 60 to 73\<close>
  "train_example tokenizer p =
     (case p of (nl_in, sql_out) \<Rightarrow>
        (let encoder_in = tok_call tokenizer (Some 512) (encoder_prompt nl_in);
             decoder_out = tok_call tokenizer None sql_out;
             decoder_begin = convert_tokens_to_ids tokenizer T5_BOS;
             decoder_input = [decoder_begin] @ fst decoder_out;
             decoder_target = fst decoder_out @ [eos_token_id tokenizer]
         in \<lparr>encoder_input_ids = fst encoder_in,
             encoder_attention_mask = snd encoder_in,
             decoder_input_ids = Some decoder_input,
             decoder_target_ids = Some decoder_target,
             decoder_start_token = decoder_begin\<rparr>))"

definition process_data ::
  "(string \<rightharpoonup> string list) \<Rightarrow> string \<Rightarrow> string \<Rightarrow> tokenizer \<Rightarrow> py_error + example list" where
  "process_data fs data_folder split tokenizer =
     (if split = ''test''
      then (case load_lines fs (path_join data_folder ''test.nl'') of
              Inl e \<Rightarrow> Inl e
            | Inr data_in \<Rightarrow> Inr (map (test_example tokenizer) data_in))
      else (case load_lines fs (path_join data_folder (split @ ''.nl'')) of
              Inl e \<Rightarrow> Inl e
            | Inr data_in \<Rightarrow>
                (case load_lines fs (path_join data_folder (split @ ''.sql'')) of
                   Inl e \<Rightarrow> Inl e
                 | Inr data_out \<Rightarrow> Inr (map (train_example tokenizer) (zip data_in data_out)))))"

text \<open>
  \<open>torch.nn.utils.rnn.pad_sequence(seqs, batch_first=True, padding_value=v)\<close> on
  one-dimensional tensors, from the documentation of the library: every sequence is extended
  on the right with \<open>v\<close> to the length of the longest one; an empty list of sequences is an
  error.
\<close>

definition max_len :: "int list list \<Rightarrow> nat" where
  "max_len seqs = fold max (map length seqs) 0"

definition pad_sequence :: "int list list \<Rightarrow> int \<Rightarrow> py_error + int list list" where
  "pad_sequence seqs padding_value =
     (if seqs = [] then Inl RuntimeError
      else Inr (map (\<lambda>s. s @ replicate (max_len seqs - length s) padding_value) seqs))"

fun get_items :: "(example \<Rightarrow> 'a option) \<Rightarrow> example list \<Rightarrow> py_error + 'a list" where
  \<comment> \<open>\<open>[item[key] for item in batch]\<close> for a key that an example may lack\<close>
  "get_items field [] = Inr []"
| "get_items field (item # batch) =
     (case field item of
        None \<Rightarrow> Inl KeyError
      | Some v \<Rightarrow> (case get_items field batch of Inl e \<Rightarrow> Inl e | Inr vs \<Rightarrow> Inr (v # vs)))"

definition normal_collate_fn ::
  "example list \<Rightarrow> py_error + (int list list \<times> int list list \<times> int list list \<times> int list list \<times> int list)" where
  "normal_collate_fn batch =
     (let encoder_ids = map encoder_input_ids batch;
          encoder_masks = map encoder_attention_mask batch
      in (case get_items decoder_input_ids batch of Inl e \<Rightarrow> Inl e | Inr decoder_inputs \<Rightarrow>
         (case get_items decoder_target_ids batch of Inl e \<Rightarrow> Inl e | Inr decoder_targets \<Rightarrow>
         (case pad_sequence encoder_ids PAD_IDX of Inl e \<Rightarrow> Inl e | Inr encoder_ids \<Rightarrow>
         (case pad_sequence encoder_masks 0 of Inl e \<Rightarrow> Inl e | Inr encoder_masks \<Rightarrow>
         (case pad_sequence decoder_inputs PAD_IDX of Inl e \<Rightarrow> Inl e | Inr decoder_inputs \<Rightarrow>
         (case pad_sequence decoder_targets PAD_IDX of Inl e \<Rightarrow> Inl e | Inr decoder_targets \<Rightarrow>
            Inr (encoder_ids, encoder_masks, decoder_inputs, decoder_targets,
                 map decoder_start_token batch))))))))"

section \<open>Concrete inputs\<close>

definition demo_tokenizer :: tokenizer where
  "demo_tokenizer =
     \<lparr>tok_call = (\<lambda>m s. (map (\<lambda>c. int (of_char c)) s, map (\<lambda>c. 1) s)),
      convert_tokens_to_ids = (\<lambda>s. 32099),
      eos_token_id = 1\<rparr>"

definition demo_fs :: "string \<rightharpoonup> string list" where
  "demo_fs = [''data/dev.nl'' \<mapsto> [''hi'' @ [CHR 0x0A]], ''data/dev.sql'' \<mapsto> [''ab;'' @ [CHR 0x0A]]]"

definition demo_data :: "example list" where
  "demo_data =
     [\<lparr>encoder_input_ids = map (\<lambda>c. int (of_char c)) (encoder_prompt ''hi''),
       encoder_attention_mask = map (\<lambda>c. 1) (encoder_prompt ''hi''),
       decoder_input_ids = Some [32099, 97, 98, 59],
       decoder_target_ids = Some [97, 98, 59, 1],
       decoder_start_token = 32099\<rparr>]"

section \<open>Notions of the specification of the collation\<close>

text \<open>
  What right-padding means for a batch field: as many rows as sequences and in the same
  order, every row as long as the longest sequence, each row starting with its sequence and
  continuing with zeros only.
\<close>

definition right_padded :: "int list list \<Rightarrow> int list list \<Rightarrow> bool" where
  "right_padded seqs rows =
     (length rows = length seqs \<and>
      (\<forall>i < length seqs.
          length (rows ! i) = Max (length ` set seqs)
        \<and> take (length (seqs ! i)) (rows ! i) = seqs ! i
        \<and> set (drop (length (seqs ! i)) (rows ! i)) \<subseteq> {0}))"

definition demo_batch :: "example list" where
  "demo_batch =
     [\<lparr>encoder_input_ids = [5, 6, 7], encoder_attention_mask = [1, 1, 1],
       decoder_input_ids = Some [9, 3], decoder_target_ids = Some [3, 1],
       decoder_start_token = 9\<rparr>,
      \<lparr>encoder_input_ids = [8], encoder_attention_mask = [1],
       decoder_input_ids = Some [9, 4, 2, 2], decoder_target_ids = Some [4, 2, 2, 1],
       decoder_start_token = 9\<rparr>]"

section \<open>Notions of the specification of \<open>extract_sql_query\<close>\<close>

text \<open>The value of \<open>query\<close> after line 34, before the semicolon is added.\<close>

definition query_before_termination :: "string \<Rightarrow> py_error + string" where
  "query_before_termination response =
     (case after_last_label (strip_special_tokens response) of
        Inl e \<Rightarrow> Inl e
      | Inr response \<Rightarrow> Inr (clean_query (select_candidate response)))"

text \<open>
  Some position of the text carries the six letters of SELECT in any case, and a semicolon
  stands somewhere after them.
\<close>

fun select_then_semicolon :: "string \<Rightarrow> bool" where
  "select_then_semicolon [] = False"
| "select_then_semicolon (c # cs) =
     ((upper (take 6 (c # cs)) = ''SELECT'' \<and> CHR '';'' \<in> set (drop 6 (c # cs)))
      \<or> select_then_semicolon cs)"

text \<open>
  A well-formed statement, in the words of the specification: the six letters of SELECT in
  any case, at least one white-space character, and the text up to the next semicolon,
  which ends the statement.
\<close>

definition select_statement :: "string \<Rightarrow> bool" where
  "select_statement m =
     (upper (take 6 m) = ''SELECT'' \<and> 7 < length m \<and> is_space (m ! 6)
      \<and> last m = CHR '';'' \<and> CHR '';'' \<notin> set (butlast (drop 7 m)))"

text \<open>
  The text that the specification keeps at the label step: what follows the last occurrence
  of SQL: in any case, in the case the response has it, and the whole text when there is no
  label. The whole cleaned response follows the words of the specification as well: removal
  of the special-token markers, cut at the last label, removal of the fences, collapse of
  white space, and a final semicolon when the result is non-empty and has none.
\<close>

fun text_after_last_label :: "string \<Rightarrow> string" where
  "text_after_last_label [] = []"
| "text_after_last_label (c # cs) =
     (if sublist ''SQL:'' (upper cs) then text_after_last_label cs
      else if prefix ''SQL:'' (upper (c # cs)) then drop 4 (c # cs)
      else c # cs)"

definition whole_cleaned_response :: "string \<Rightarrow> string" where
  "whole_cleaned_response response =
     (let t = text_after_last_label (strip_special_tokens response);
          c = strip (re_sub_ws (re_sub_fence t))
      in if c = [] then [] else if endswith c '';'' then c else c @ '';'')"

section \<open>Properties of \<open>eval_outputs\<close>\<close>

lemma count_errors_fold:
  "fold (\<lambda>msg acc. if msg \<noteq> [] then acc + 1 else acc) msgs (a::int)
     = a + int (length (filter (\<lambda>msg. msg \<noteq> []) msgs))"
  by (induction msgs arbitrary: a) auto

text \<open>
  C9: the error rate returned by \<open>eval_outputs\<close> is the number of non-empty messages divided
  by the number of messages, and it is 0 for an empty list of messages; the function returns
  in both cases, the division is never reached with a zero divisor.
\<close>

theorem eval_outputs_error_rate:
  "eval_outputs (sql_em, record_em, record_f1, error_msgs) =
     Inr (sql_em, record_em, record_f1, error_msgs,
          if error_msgs = [] then 0
          else of_nat (length (filter (\<lambda>msg. msg \<noteq> []) error_msgs)) / of_nat (length error_msgs))"
  by (simp add: eval_outputs_def py_truediv_def count_errors_def count_errors_fold)

section \<open>Properties of \<open>T5Dataset.process_data\<close>\<close>

text \<open>
  C4: for a split other than the test split, \<open>process_data\<close> builds one example for every
  pair of a question line and an SQL line, in order. Example \<open>i\<close> has as decoder input the
  start id followed by the token ids the tokenizer gives for SQL line \<open>i\<close>, and as decoder
  target the same token ids followed by the end-of-sequence id of the tokenizer: the decoder
  target is the decoder input without its first element, with the end-of-sequence id
  appended.
\<close>

theorem process_data_teacher_forcing:
  assumes "split \<noteq> ''test''" and "process_data fs data_folder split tokenizer = Inr data"
  shows "\<exists>data_in data_out.
           load_lines fs (path_join data_folder (split @ ''.nl'')) = Inr data_in
         \<and> load_lines fs (path_join data_folder (split @ ''.sql'')) = Inr data_out
         \<and> length data = min (length data_in) (length data_out)
         \<and> (\<forall>i < length data.
               encoder_input_ids (data ! i)
                 = fst (tok_call tokenizer (Some 512) (encoder_prompt (data_in ! i)))
             \<and> decoder_start_token (data ! i) = convert_tokens_to_ids tokenizer T5_BOS
             \<and> decoder_input_ids (data ! i)
                 = Some (convert_tokens_to_ids tokenizer T5_BOS
                          # fst (tok_call tokenizer None (data_out ! i)))
             \<and> decoder_target_ids (data ! i)
                 = Some (fst (tok_call tokenizer None (data_out ! i)) @ [eos_token_id tokenizer])
             \<and> decoder_target_ids (data ! i)
                 = Some (tl (the (decoder_input_ids (data ! i))) @ [eos_token_id tokenizer]))"
proof -
  from assms obtain data_in data_out where
    i: "load_lines fs (path_join data_folder (split @ ''.nl'')) = Inr data_in" and
    out: "load_lines fs (path_join data_folder (split @ ''.sql'')) = Inr data_out" and
    d: "data = map (train_example tokenizer) (zip data_in data_out)"
    by (auto simp: process_data_def split: sum.splits)
  have "length data = min (length data_in) (length data_out)" by (simp add: d)
  moreover have "\<forall>i < length data.
               encoder_input_ids (data ! i)
                 = fst (tok_call tokenizer (Some 512) (encoder_prompt (data_in ! i)))
             \<and> decoder_start_token (data ! i) = convert_tokens_to_ids tokenizer T5_BOS
             \<and> decoder_input_ids (data ! i)
                 = Some (convert_tokens_to_ids tokenizer T5_BOS
                          # fst (tok_call tokenizer None (data_out ! i)))
             \<and> decoder_target_ids (data ! i)
                 = Some (fst (tok_call tokenizer None (data_out ! i)) @ [eos_token_id tokenizer])
             \<and> decoder_target_ids (data ! i)
                 = Some (tl (the (decoder_input_ids (data ! i))) @ [eos_token_id tokenizer])"
    by (simp add: d train_example_def Let_def)
  ultimately show ?thesis using i out by blast
qed

theorem process_data_teacher_forcing_witness:
  "process_data demo_fs ''data'' ''dev'' demo_tokenizer = Inr demo_data
   \<and> load_lines demo_fs (path_join ''data'' (''dev'' @ ''.sql'')) = Inr [''ab;'']
   \<and> fst (tok_call demo_tokenizer None ''ab;'') = [97, 98, 59]
   \<and> decoder_input_ids (demo_data ! 0) = Some [32099, 97, 98, 59]
   \<and> decoder_target_ids (demo_data ! 0) = Some [97, 98, 59, 1]
   \<and> decoder_target_ids (demo_data ! 0)
        = Some (tl (the (decoder_input_ids (demo_data ! 0))) @ [eos_token_id demo_tokenizer])"
proof -
  have h1: "''dev'' \<noteq> ''test''" by simp
  have h2: "process_data demo_fs ''data'' ''dev'' demo_tokenizer = Inr demo_data"
    by code_simp
  have l: "load_lines demo_fs (path_join ''data'' (''dev'' @ ''.sql'')) = Inr [''ab;'']"
    by code_simp
  have t: "fst (tok_call demo_tokenizer None ''ab;'') = [97, 98, 59]"
    by code_simp
  have c: "convert_tokens_to_ids demo_tokenizer T5_BOS = 32099" "eos_token_id demo_tokenizer = 1"
    by (simp_all add: demo_tokenizer_def)
  have n: "0 < length demo_data" by (simp add: demo_data_def)
  from process_data_teacher_forcing [OF h1 h2] obtain data_in data_out where
    o: "load_lines demo_fs (path_join ''data'' (''dev'' @ ''.sql'')) = Inr data_out" and
    a: "\<forall>i < length demo_data.
               encoder_input_ids (demo_data ! i)
                 = fst (tok_call demo_tokenizer (Some 512) (encoder_prompt (data_in ! i)))
             \<and> decoder_start_token (demo_data ! i) = convert_tokens_to_ids demo_tokenizer T5_BOS
             \<and> decoder_input_ids (demo_data ! i)
                 = Some (convert_tokens_to_ids demo_tokenizer T5_BOS
                          # fst (tok_call demo_tokenizer None (data_out ! i)))
             \<and> decoder_target_ids (demo_data ! i)
                 = Some (fst (tok_call demo_tokenizer None (data_out ! i)) @ [eos_token_id demo_tokenizer])
             \<and> decoder_target_ids (demo_data ! i)
                 = Some (tl (the (decoder_input_ids (demo_data ! i))) @ [eos_token_id demo_tokenizer])"
    by blast
  from o l have "data_out = [''ab;'']" by simp
  with a n t c have
    "decoder_input_ids (demo_data ! 0) = Some [32099, 97, 98, 59]"
    "decoder_target_ids (demo_data ! 0) = Some [97, 98, 59, 1]"
    "decoder_target_ids (demo_data ! 0)
        = Some (tl (the (decoder_input_ids (demo_data ! 0))) @ [eos_token_id demo_tokenizer])"
    by auto
  with h2 l t show ?thesis by (intro conjI)
qed

section \<open>Properties of \<open>create_prompt\<close>\<close>

lemma examples_loop_result:
  "examples_loop xs ys idxs a =
     (if \<forall>idx \<in> set idxs. idx < length ys \<and> idx < length xs
      then Inr (a @ concat (map (\<lambda>idx. xs ! idx @ [CHR 0x0A]
                  @ (if endswith (strip (ys ! idx)) '';'' then strip (ys ! idx) else strip (ys ! idx) @ '';'')
                  @ [CHR 0x0A, CHR 0x0A]) idxs))
      else Inl IndexError)"
  by (induction idxs arbitrary: a) (simp_all add: Let_def)

lemma examples_loop_in_range:
  assumes "\<forall>idx \<in> set idxs. idx < length xs \<and> idx < length ys"
  shows "examples_loop xs ys idxs a =
           Inr (a @ concat (map (\<lambda>idx. xs ! idx @ [CHR 0x0A]
                  @ (if endswith (strip (ys ! idx)) '';'' then strip (ys ! idx) else strip (ys ! idx) @ '';'')
                  @ [CHR 0x0A, CHR 0x0A]) idxs))"
  using assms by (simp add: examples_loop_result)

lemma create_prompt_header:
  assumes "create_prompt sentence k tx ty schema ptype = Inr p"
  shows "\<exists>rest. p = instruction_text ptype schema @ rest
           \<and> (\<forall>pt sc. create_prompt sentence k tx ty sc pt = Inr (instruction_text pt sc @ rest))"
  using assms
  by (cases tx; cases ty)
     (auto simp: create_prompt_def Let_def examples_loop_result split: if_splits)

text \<open>
  C10: for every prompt type other than 0 and 1, a prompt that \<open>create_prompt\<close> returns
  starts with the third instruction text; the schema line, with the schema cut to its first
  300 characters, follows exactly when a non-empty schema is given, and with no schema or an
  empty one the instruction text is followed at once by the rest, which is the part of the
  prompt that does not depend on the prompt type (the examples and the sentence).
\<close>

theorem create_prompt_variant2:
  assumes "ptype \<noteq> 0" and "ptype \<noteq> 1"
    and "create_prompt sentence k train_x train_y schema ptype = Inr p"
  shows "\<exists>rest.
           create_prompt sentence k train_x train_y None 0 = Inr (instruct0 @ rest)
         \<and> (case schema of
              None \<Rightarrow> p = instruct2 @ rest
            | Some sc \<Rightarrow>
                if sc = [] then p = instruct2 @ rest
                else p = instruct2 @ ''Schema: '' @ take 300 sc @ [CHR 0x0A, CHR 0x0A] @ rest
                     \<and> length (take 300 sc) \<le> 300)"
proof -
  from create_prompt_header [OF assms(3)] obtain rest where
    p: "p = instruction_text ptype schema @ rest" and
    all: "\<forall>pt sc. create_prompt sentence k train_x train_y sc pt = Inr (instruction_text pt sc @ rest)"
    by blast
  from all have "create_prompt sentence k train_x train_y None 0 = Inr (instruct0 @ rest)"
    by (simp add: instruction_text_def)
  moreover have "case schema of
              None \<Rightarrow> p = instruct2 @ rest
            | Some sc \<Rightarrow>
                if sc = [] then p = instruct2 @ rest
                else p = instruct2 @ ''Schema: '' @ take 300 sc @ [CHR 0x0A, CHR 0x0A] @ rest
                     \<and> length (take 300 sc) \<le> 300"
    using assms(1,2) p by (simp add: instruction_text_def split: option.splits)
  ultimately show ?thesis by blast
qed

theorem create_prompt_variant2_witness:
  "create_prompt ''q'' 0 None None (Some ''tbl'') 5
     = Inr (instruct2 @ ''Schema: tbl'' @ [CHR 0x0A, CHR 0x0A] @ ''q'')
   \<and> (\<exists>rest.
           create_prompt ''q'' 0 None None None 0 = Inr (instruct0 @ rest)
         \<and> (case Some ''tbl'' of
              None \<Rightarrow> instruct2 @ ''Schema: tbl'' @ [CHR 0x0A, CHR 0x0A] @ ''q'' = instruct2 @ rest
            | Some sc \<Rightarrow>
                if sc = [] then instruct2 @ ''Schema: tbl'' @ [CHR 0x0A, CHR 0x0A] @ ''q'' = instruct2 @ rest
                else instruct2 @ ''Schema: tbl'' @ [CHR 0x0A, CHR 0x0A] @ ''q''
                       = instruct2 @ ''Schema: '' @ take 300 sc @ [CHR 0x0A, CHR 0x0A] @ rest
                     \<and> length (take 300 sc) \<le> 300))"
proof -
  have h1: "(5::int) \<noteq> 0" by simp
  have h2: "(5::int) \<noteq> 1" by simp
  have h3: "create_prompt ''q'' 0 None None (Some ''tbl'') 5
              = Inr (instruct2 @ ''Schema: tbl'' @ [CHR 0x0A, CHR 0x0A] @ ''q'')"
    by (simp add: create_prompt_def instruction_text_def)
  from create_prompt_variant2 [OF h1 h2 h3] h3 show ?thesis by (intro conjI)
qed

text \<open>
  C3, as stated, fails: with two questions, one SQL line and \<open>k = 2\<close> the loop reads
  \<open>train_y[1]\<close> and raises IndexError.
\<close>

theorem create_prompt_index_error:
  "(0::int) < 2 \<and> [''a'', ''b''] \<noteq> ([]::string list) \<and> [''x''] \<noteq> ([]::string list)
   \<and> create_prompt ''q'' 2 (Some [''a'', ''b'']) (Some [''x'']) None 0 = Inl IndexError"
  by code_simp

text \<open>
  C3, amended: for \<open>k > 0\<close> and non-empty training lists with at least
  \<open>min(k, len(train_x))\<close> SQL lines, the prompt is the instruction text, then exactly
  \<open>min(k, len(train_x))\<close> blocks in the order of the lists, then the sentence. Block \<open>i\<close>
  is the question \<open>i\<close>, a newline, the SQL and two newlines, where the SQL is the stripped
  line \<open>i\<close> of \<open>train_y\<close>, with one semicolon appended exactly when it does not end with one.
\<close>

theorem create_prompt_examples:
  assumes "0 < k" and "train_x \<noteq> []" and "train_y \<noteq> []"
    and "min (nat k) (length train_x) \<le> length train_y"
  shows "\<exists>blocks.
           create_prompt sentence k (Some train_x) (Some train_y) schema ptype
             = Inr (instruction_text ptype schema @ concat blocks @ sentence)
         \<and> length blocks = min (nat k) (length train_x)
         \<and> (\<forall>i < length blocks. \<exists>sql.
               blocks ! i = train_x ! i @ [CHR 0x0A] @ sql @ [CHR 0x0A, CHR 0x0A]
             \<and> endswith sql '';''
             \<and> sql = (if endswith (strip (train_y ! i)) '';'' then strip (train_y ! i)
                      else strip (train_y ! i) @ '';''))"
proof -
  let ?n = "min (nat k) (length train_x)"
  let ?blk = "\<lambda>idx. train_x ! idx @ [CHR 0x0A]
                  @ (if endswith (strip (train_y ! idx)) '';'' then strip (train_y ! idx) else strip (train_y ! idx) @ '';'')
                  @ [CHR 0x0A, CHR 0x0A]"
  have n: "nat (min k (int (length train_x))) = ?n" using assms(1) by simp
  have rng: "\<forall>idx \<in> set [0 ..< ?n]. idx < length train_x \<and> idx < length train_y"
    using assms(4) by auto
  have "create_prompt sentence k (Some train_x) (Some train_y) schema ptype
          = Inr (instruction_text ptype schema @ concat (map ?blk [0 ..< ?n]) @ sentence)"
    using assms(1,2,3) by (simp add: create_prompt_def n examples_loop_in_range [OF rng])
  moreover have "length (map ?blk [0 ..< ?n]) = ?n" by simp
  moreover have "\<forall>i < length (map ?blk [0 ..< ?n]). \<exists>sql.
               map ?blk [0 ..< ?n] ! i = train_x ! i @ [CHR 0x0A] @ sql @ [CHR 0x0A, CHR 0x0A]
             \<and> endswith sql '';''
             \<and> sql = (if endswith (strip (train_y ! i)) '';'' then strip (train_y ! i)
                      else strip (train_y ! i) @ '';'')"
    by (simp add: endswith_def)
  ultimately show ?thesis by blast
qed

theorem create_prompt_examples_witness:
  "\<exists>blocks.
     create_prompt ''list all airports'' 1 (Some [''how many flights?''])
         (Some [''SELECT COUNT(*) FROM flight;'']) None 0
       = Inr (instruction_text 0 None @ concat blocks @ ''list all airports'')
   \<and> length blocks = min (nat 1) (length [''how many flights?''])
   \<and> blocks ! 0 = ''how many flights?'' @ [CHR 0x0A] @ ''SELECT COUNT(*) FROM flight;'' @ [CHR 0x0A, CHR 0x0A]"
proof -
  have h1: "(0::int) < 1" by simp
  have h2: "[''how many flights?''] \<noteq> ([]::string list)" by simp
  have h3: "[''SELECT COUNT(*) FROM flight;''] \<noteq> ([]::string list)" by simp
  have h4: "min (nat 1) (length [''how many flights?'']) \<le> length [''SELECT COUNT(*) FROM flight;'']"
    by simp
  have s: "strip ''SELECT COUNT(*) FROM flight;'' = ''SELECT COUNT(*) FROM flight;''"
    by code_simp
  have e: "endswith ''SELECT COUNT(*) FROM flight;'' '';''"
    by code_simp
  from create_prompt_examples [OF h1 h2 h3 h4, of "''list all airports''" None 0]
  obtain blocks where b:
    "create_prompt ''list all airports'' 1 (Some [''how many flights?''])
         (Some [''SELECT COUNT(*) FROM flight;'']) None 0
       = Inr (instruction_text 0 None @ concat blocks @ ''list all airports'')"
    "length blocks = min (nat 1) (length [''how many flights?''])"
    "\<forall>i < length blocks. \<exists>sql.
        blocks ! i = [''how many flights?''] ! i @ [CHR 0x0A] @ sql @ [CHR 0x0A, CHR 0x0A]
      \<and> endswith sql '';''
      \<and> sql = (if endswith (strip ([''SELECT COUNT(*) FROM flight;''] ! i)) '';''
               then strip ([''SELECT COUNT(*) FROM flight;''] ! i)
               else strip ([''SELECT COUNT(*) FROM flight;''] ! i) @ '';'')"
    by blast
  from b(2) have "0 < length blocks" by simp
  with b(3) have "blocks ! 0 = ''how many flights?'' @ [CHR 0x0A] @ ''SELECT COUNT(*) FROM flight;'' @ [CHR 0x0A, CHR 0x0A]"
    using s e by auto
  with b(1,2) show ?thesis by blast
qed

section \<open>Properties of \<open>normal_collate_fn\<close>\<close>

lemma fold_max_Max:
  "fold max xs (a::nat) = Max (insert a (set xs))"
  by (simp add: Max.set_eq_fold [symmetric])

lemma max_len_Max:
  assumes "seqs \<noteq> []"
  shows "max_len seqs = Max (length ` set seqs)"
proof -
  have "max_len seqs = Max (insert 0 (length ` set seqs))"
    by (simp add: max_len_def fold_max_Max)
  also have "\<dots> = max 0 (Max (length ` set seqs))"
    using assms by (intro Max_insert) auto
  finally show ?thesis by simp
qed

lemma length_le_max_len:
  assumes "s \<in> set seqs"
  shows "length s \<le> max_len seqs"
proof -
  from assms have ne: "seqs \<noteq> []" by auto
  have "length s \<le> Max (length ` set seqs)" using assms by (intro Max_ge) auto
  then show ?thesis by (simp add: max_len_Max [OF ne])
qed

lemma pad_sequence_padded:
  assumes "seqs \<noteq> []"
  shows "\<exists>rows. pad_sequence seqs 0 = Inr rows \<and> right_padded seqs rows"
proof -
  let ?rows = "map (\<lambda>s. s @ replicate (max_len seqs - length s) 0) seqs"
  have "pad_sequence seqs 0 = Inr ?rows" using assms by (simp add: pad_sequence_def)
  moreover have "right_padded seqs ?rows"
    unfolding right_padded_def
  proof (intro conjI allI impI)
    show "length ?rows = length seqs" by simp
  next
    fix i assume i: "i < length seqs"
    then have "length (seqs ! i) \<le> max_len seqs" by (intro length_le_max_len) simp
    with i show "length (?rows ! i) = Max (length ` set seqs)"
      by (simp add: max_len_Max [OF assms])
  next
    fix i assume i: "i < length seqs"
    then show "take (length (seqs ! i)) (?rows ! i) = seqs ! i" by simp
  next
    fix i assume i: "i < length seqs"
    then show "set (drop (length (seqs ! i)) (?rows ! i)) \<subseteq> {0}" by auto
  qed
  ultimately show ?thesis by blast
qed

lemma get_items_all:
  assumes "\<forall>item \<in> set batch. field item \<noteq> None"
  shows "get_items field batch = Inr (map (\<lambda>item. the (field item)) batch)"
  using assms by (induction batch) auto

text \<open>
  C8: on a non-empty batch of examples that all have the decoder fields,
  \<open>normal_collate_fn\<close> returns, and each of the four id and mask fields is right-padded
  with 0 to the longest sequence of that field in the batch, so all rows of a field have the
  same length; row \<open>i\<close> belongs to example \<open>i\<close>, and the initial decoder inputs are the start
  token ids of the examples in the same order.
\<close>

theorem normal_collate_fn_pads:
  assumes "batch \<noteq> []"
    and "\<forall>item \<in> set batch. decoder_input_ids item \<noteq> None \<and> decoder_target_ids item \<noteq> None"
  shows "\<exists>encoder_ids encoder_masks decoder_inputs decoder_targets.
           normal_collate_fn batch
             = Inr (encoder_ids, encoder_masks, decoder_inputs, decoder_targets,
                    map decoder_start_token batch)
         \<and> right_padded (map encoder_input_ids batch) encoder_ids
         \<and> right_padded (map encoder_attention_mask batch) encoder_masks
         \<and> right_padded (map (\<lambda>item. the (decoder_input_ids item)) batch) decoder_inputs
         \<and> right_padded (map (\<lambda>item. the (decoder_target_ids item)) batch) decoder_targets"
proof -
  have gi: "get_items decoder_input_ids batch = Inr (map (\<lambda>item. the (decoder_input_ids item)) batch)"
    using assms(2) by (intro get_items_all) simp
  have gt: "get_items decoder_target_ids batch = Inr (map (\<lambda>item. the (decoder_target_ids item)) batch)"
    using assms(2) by (intro get_items_all) simp
  obtain E where E: "pad_sequence (map encoder_input_ids batch) 0 = Inr E"
    "right_padded (map encoder_input_ids batch) E"
    using pad_sequence_padded [of "map encoder_input_ids batch"] assms(1) by auto
  obtain M where M: "pad_sequence (map encoder_attention_mask batch) 0 = Inr M"
    "right_padded (map encoder_attention_mask batch) M"
    using pad_sequence_padded [of "map encoder_attention_mask batch"] assms(1) by auto
  obtain DI where DI: "pad_sequence (map (\<lambda>item. the (decoder_input_ids item)) batch) 0 = Inr DI"
    "right_padded (map (\<lambda>item. the (decoder_input_ids item)) batch) DI"
    using pad_sequence_padded [of "map (\<lambda>item. the (decoder_input_ids item)) batch"] assms(1) by auto
  obtain DT where DT: "pad_sequence (map (\<lambda>item. the (decoder_target_ids item)) batch) 0 = Inr DT"
    "right_padded (map (\<lambda>item. the (decoder_target_ids item)) batch) DT"
    using pad_sequence_padded [of "map (\<lambda>item. the (decoder_target_ids item)) batch"] assms(1) by auto
  have "normal_collate_fn batch = Inr (E, M, DI, DT, map decoder_start_token batch)"
    by (simp add: normal_collate_fn_def Let_def gi gt E(1) M(1) DI(1) DT(1) PAD_IDX_def)
  with E(2) M(2) DI(2) DT(2) show ?thesis by blast
qed

theorem normal_collate_fn_pads_witness:
  "normal_collate_fn demo_batch =
     Inr ([[5, 6, 7], [8, 0, 0]], [[1, 1, 1], [1, 0, 0]],
          [[9, 3, 0, 0], [9, 4, 2, 2]], [[3, 1, 0, 0], [4, 2, 2, 1]],
          map decoder_start_token demo_batch)
   \<and> right_padded (map encoder_input_ids demo_batch) [[5, 6, 7], [8, 0, 0]]
   \<and> right_padded (map encoder_attention_mask demo_batch) [[1, 1, 1], [1, 0, 0]]
   \<and> right_padded (map (\<lambda>item. the (decoder_input_ids item)) demo_batch) [[9, 3, 0, 0], [9, 4, 2, 2]]
   \<and> right_padded (map (\<lambda>item. the (decoder_target_ids item)) demo_batch) [[3, 1, 0, 0], [4, 2, 2, 1]]"
proof -
  have h1: "demo_batch \<noteq> []" by (simp add: demo_batch_def)
  have h2: "\<forall>item \<in> set demo_batch. decoder_input_ids item \<noteq> None \<and> decoder_target_ids item \<noteq> None"
    by (simp add: demo_batch_def)
  have v: "normal_collate_fn demo_batch =
     Inr ([[5, 6, 7], [8, 0, 0]], [[1, 1, 1], [1, 0, 0]],
          [[9, 3, 0, 0], [9, 4, 2, 2]], [[3, 1, 0, 0], [4, 2, 2, 1]], [9, 9])"
    by code_simp
  from normal_collate_fn_pads [OF h1 h2] v show ?thesis by auto
qed

section \<open>Properties of the generation loop\<close>

lemma exp_kshot_loop_result:
  assumes "exp_kshot_loop g k tx ty sc pt items (raws0, qs0) = Inr (raws, qs)"
  shows "\<exists>rs' qs'. raws = raws0 @ rs' \<and> qs = qs0 @ qs'
           \<and> length rs' = length items \<and> length qs' = length items
           \<and> (\<forall>j < length items. \<exists>prompt.
                 create_prompt (snd (items ! j)) k tx ty sc pt = Inr prompt
               \<and> rs' ! j = strip_prompt prompt (g (fst (items ! j)) prompt)
               \<and> extract_sql_query (rs' ! j) = Inr (qs' ! j))"
  using assms
proof (induction items arbitrary: raws0 qs0)
  case Nil
  then show ?case by simp
next
  case (Cons it items)
  obtain i sentence where it: "it = (i, sentence)" by (cases it)
  from Cons.prems obtain prompt q where
    p: "create_prompt sentence k tx ty sc pt = Inr prompt" and
    q: "extract_sql_query (strip_prompt prompt (g i prompt)) = Inr q" and
    rec: "exp_kshot_loop g k tx ty sc pt items
            (raws0 @ [strip_prompt prompt (g i prompt)], qs0 @ [q]) = Inr (raws, qs)"
    by (auto simp: it Let_def split: sum.splits)
  from Cons.IH [OF rec] obtain rs' qs' where
    r: "raws = (raws0 @ [strip_prompt prompt (g i prompt)]) @ rs'" "qs = (qs0 @ [q]) @ qs'"
       "length rs' = length items" "length qs' = length items" and
    a: "\<forall>j < length items. \<exists>prompt.
                 create_prompt (snd (items ! j)) k tx ty sc pt = Inr prompt
               \<and> rs' ! j = strip_prompt prompt (g (fst (items ! j)) prompt)
               \<and> extract_sql_query (rs' ! j) = Inr (qs' ! j)"
    by blast
  let ?rs = "strip_prompt prompt (g i prompt) # rs'" and ?qs = "q # qs'"
  have "\<forall>j < length (it # items). \<exists>prompt.
                 create_prompt (snd ((it # items) ! j)) k tx ty sc pt = Inr prompt
               \<and> ?rs ! j = strip_prompt prompt (g (fst ((it # items) ! j)) prompt)
               \<and> extract_sql_query (?rs ! j) = Inr (?qs ! j)"
  proof (intro allI impI)
    fix j assume "j < length (it # items)"
    then show "\<exists>prompt.
                 create_prompt (snd ((it # items) ! j)) k tx ty sc pt = Inr prompt
               \<and> ?rs ! j = strip_prompt prompt (g (fst ((it # items) ! j)) prompt)
               \<and> extract_sql_query (?rs ! j) = Inr (?qs ! j)"
      using p q a by (cases j) (auto simp: it)
  qed
  moreover have "raws = raws0 @ ?rs" "qs = qs0 @ ?qs" "length ?rs = length (it # items)"
    "length ?qs = length (it # items)" using r by simp_all
  ultimately show ?case by blast
qed

text \<open>
  C2, as stated, fails: the test of line 98 compares lengths and does not look at the text.
  A response that is longer than the prompt and does not start with it loses its first
  \<open>len(prompt)\<close> characters all the same.
\<close>

theorem strip_prompt_not_prefix:
  "\<not> prefix ''ab'' ''xyz'' \<and> strip_prompt ''ab'' ''xyz'' = ''z'' \<and> ''z'' \<noteq> ''xyz''"
  by code_simp

text \<open>
  C2, amended: when the loop returns, the raw output \<open>i\<close> is computed from the prompt of
  input \<open>i\<close> and the decoded output \<open>r\<close> for it: if \<open>r\<close> is longer than the prompt, the first
  \<open>len(prompt)\<close> characters are dropped and the remainder is stripped of white space at
  both ends, so a response that starts with the prompt and continues loses exactly the
  prompt and the surrounding white space; otherwise \<open>r\<close> is kept as it is. The extracted
  query \<open>i\<close> is \<open>extract_sql_query\<close> of that raw output.
\<close>

theorem exp_kshot_strips_prompt:
  assumes "exp_kshot generate inputs k train_x train_y schema ptype = Inr (raw_outputs, extracted_queries)"
    and "i < length inputs"
  shows "\<exists>prompt r.
           create_prompt (inputs ! i) k train_x train_y schema ptype = Inr prompt
         \<and> r = generate i prompt
         \<and> extract_sql_query (raw_outputs ! i) = Inr (extracted_queries ! i)
         \<and> raw_outputs ! i =
             (if length prompt < length r then strip (drop (length prompt) r) else r)
         \<and> (\<forall>s. r = prompt @ s \<and> s \<noteq> [] \<longrightarrow> raw_outputs ! i = strip s)"
proof -
  from exp_kshot_loop_result [OF assms(1) [unfolded exp_kshot_def]] assms(2)
  obtain prompt where
    p: "create_prompt (inputs ! i) k train_x train_y schema ptype = Inr prompt" and
    r: "raw_outputs ! i = strip_prompt prompt (generate i prompt)" and
    q: "extract_sql_query (raw_outputs ! i) = Inr (extracted_queries ! i)"
    by fastforce
  have "\<forall>s. generate i prompt = prompt @ s \<and> s \<noteq> [] \<longrightarrow> raw_outputs ! i = strip s"
    by (simp add: r strip_prompt_def)
  with p q r show ?thesis by (simp add: strip_prompt_def)
qed

theorem exp_kshot_strips_prompt_witness:
  "exp_kshot (\<lambda>i p. p @ '' SQL: select 1'') [''q''] 0 None None None 0
     = Inr ([''SQL: select 1''], [''SELECT 1;''])
   \<and> (\<exists>prompt r.
           create_prompt ([''q''] ! 0) 0 None None None 0 = Inr prompt
         \<and> r = prompt @ '' SQL: select 1''
         \<and> extract_sql_query ([''SQL: select 1''] ! 0) = Inr ([''SELECT 1;''] ! 0)
         \<and> [''SQL: select 1''] ! 0 =
             (if length prompt < length r then strip (drop (length prompt) r) else r)
         \<and> (\<forall>s. r = prompt @ s \<and> s \<noteq> [] \<longrightarrow> [''SQL: select 1''] ! 0 = strip s))"
proof -
  have h1: "exp_kshot (\<lambda>i p. p @ '' SQL: select 1'') [''q''] 0 None None None 0
              = Inr ([''SQL: select 1''], [''SELECT 1;''])"
    by code_simp
  have h2: "0 < length [''q'']" by simp
  from exp_kshot_strips_prompt [OF h1 h2] h1 show ?thesis by (intro conjI)
qed

section \<open>Characters and the sets of characters of the stages\<close>

lemma of_char_eq_iff: "(of_char c :: nat) = of_char d \<longleftrightarrow> c = d"
  by (metis char_of_char)

lemma of_char_char_upper:
  "(of_char (char_upper c) :: nat) =
     (if 97 \<le> (of_char c :: nat) \<and> (of_char c :: nat) \<le> 122 then of_char c - 32 else of_char c)"
  by (auto simp: char_upper_def Let_def)

lemma char_upper_semicolon: "char_upper c = CHR '';'' \<longleftrightarrow> c = CHR '';''"
proof -
  have "char_upper c = CHR '';'' \<longleftrightarrow> (of_char (char_upper c) :: nat) = of_char (CHR '';'')"
    by (simp only: of_char_eq_iff)
  also have "\<dots> \<longleftrightarrow> (of_char c :: nat) = of_char (CHR '';'')"
    by (auto simp: of_char_char_upper)
  also have "\<dots> \<longleftrightarrow> c = CHR '';''"
    by (simp only: of_char_eq_iff)
  finally show ?thesis .
qed

lemma upper_append: "upper (a @ b) = upper a @ upper b"
  by (simp add: upper_def)

lemma str_split_nonempty: "str_split sep s \<noteq> []"
  by (induction sep s rule: str_split.induct) (auto split: list.splits)

lemma after_last_label_returns: "\<exists>t. after_last_label s = Inr t"
  by (simp add: after_last_label_def py_last_def str_split_nonempty)

lemma set_str_replace: "set (str_replace old new s) \<subseteq> set s \<union> set new"
proof (induction old new s rule: str_replace.induct)
  case (1 old new)
  show ?case by simp
next
  case (2 old new c cs)
  have "set (drop (length old) (c # cs)) \<subseteq> set (c # cs)" by (rule set_drop_subset)
  with 2 show ?case by (auto split: if_splits)
qed

lemma set_str_split: "p \<in> set (str_split sep s) \<Longrightarrow> set p \<subseteq> set s"
proof (induction sep s arbitrary: p rule: str_split.induct)
  case (1 sep)
  then show ?case by simp
next
  case (2 sep c cs)
  show ?case
  proof (cases "sep \<noteq> [] \<and> prefix sep (c # cs)")
    case True
    with 2(3) have "p = [] \<or> p \<in> set (str_split sep (drop (length sep) (c # cs)))" by auto
    moreover have "set (drop (length sep) (c # cs)) \<subseteq> set (c # cs)" by (rule set_drop_subset)
    ultimately show ?thesis
    proof (elim disjE)
      assume "p = []" then show ?thesis by simp
    next
      assume "p \<in> set (str_split sep (drop (length sep) (c # cs)))"
      then have "set p \<subseteq> set (drop (length sep) (c # cs))" by (rule 2(1) [OF True])
      also have "\<dots> \<subseteq> set (c # cs)" by (rule set_drop_subset)
      finally show ?thesis .
    qed
  next
    case False
    with 2(3) obtain q qs where q: "str_split sep cs = q # qs" "p = c # q \<or> p \<in> set qs"
      using str_split_nonempty [of sep cs] by (cases "str_split sep cs") auto
    with 2(2) [OF False] show ?thesis by fastforce
  qed
qed

lemma set_upper_semicolon: "CHR '';'' \<in> set (upper s) \<longleftrightarrow> CHR '';'' \<in> set s"
proof -
  have "CHR '';'' \<in> set (upper s) \<longleftrightarrow> (\<exists>x \<in> set s. char_upper x = CHR '';'')"
    by (force simp: upper_def)
  then show ?thesis by (simp add: char_upper_semicolon)
qed

lemma set_re_sub_fence: "set (re_sub_fence s) \<subseteq> set s"
proof (induction s rule: re_sub_fence.induct)
  case 1
  show ?case by simp
next
  case (2 c cs)
  show ?case
  proof (cases "prefix [CHR 0x60, CHR 0x60, CHR 0x60] (c # cs)")
    case fence: True
    show ?thesis
    proof (cases "upper (take 3 (drop 3 (c # cs))) = ''SQL''")
      case True
      have "re_sub_fence (c # cs) = re_sub_fence (drop 6 (c # cs))"
        by (simp only: re_sub_fence.simps if_P [OF fence] if_P [OF True])
      also have "set \<dots> \<subseteq> set (drop 6 (c # cs))" by (rule 2(1) [OF fence True])
      also have "\<dots> \<subseteq> set (c # cs)" by (rule set_drop_subset)
      finally show ?thesis .
    next
      case False
      have "re_sub_fence (c # cs) = re_sub_fence (drop 3 (c # cs))"
        by (simp only: re_sub_fence.simps if_P [OF fence] if_not_P [OF False])
      also have "set \<dots> \<subseteq> set (drop 3 (c # cs))" by (rule 2(2) [OF fence False])
      also have "\<dots> \<subseteq> set (c # cs)" by (rule set_drop_subset)
      finally show ?thesis .
    qed
  next
    case False
    have "re_sub_fence (c # cs) = c # re_sub_fence cs"
      by (simp only: re_sub_fence.simps if_not_P [OF False])
    with 2(3) [OF False] show ?thesis by auto
  qed
qed

lemma set_re_sub_ws: "set (re_sub_ws s) \<subseteq> insert (CHR '' '') (set s)"
proof (induction s rule: re_sub_ws.induct)
  case 1
  show ?case by simp
next
  case (2 c cs)
  have "set (dropWhile is_space cs) \<subseteq> set cs" by (auto dest: set_dropWhileD)
  with 2 show ?case by (auto split: if_splits)
qed

lemma set_strip: "set (strip s) \<subseteq> set s"
  by (auto simp: strip_def dest!: set_dropWhileD)

lemma set_match_select_at: "match_select_at s = Some m \<Longrightarrow> set m \<subseteq> set s"
proof -
  assume a: "match_select_at s = Some m"
  then have m: "m = take 7 s @ takeWhile (\<lambda>c. c \<noteq> CHR '';'') (drop 7 s) @ '';''"
    and semi: "CHR '';'' \<in> set (drop 7 s)"
    by (simp_all add: match_select_at_def split: if_splits)
  have d: "set (drop 7 s) \<subseteq> set s" by (rule set_drop_subset)
  have "set (take 7 s) \<subseteq> set s" by (rule set_take_subset)
  moreover have "set (takeWhile (\<lambda>c. c \<noteq> CHR '';'') (drop 7 s)) \<subseteq> set s"
    using d by (auto dest: set_takeWhileD)
  moreover have "CHR '';'' \<in> set s" using semi d by blast
  ultimately show ?thesis by (simp add: m)
qed

lemma set_re_search_select: "re_search_select s = Some m \<Longrightarrow> set m \<subseteq> set s"
proof (induction s)
  case Nil
  then show ?case by simp
next
  case (Cons c cs)
  show ?case
  proof (cases "match_select_at (c # cs)")
    case None
    with Cons.prems have "re_search_select cs = Some m" by simp
    then have "set m \<subseteq> set cs" by (rule Cons.IH)
    then show ?thesis by auto
  next
    case (Some m')
    with Cons.prems have "match_select_at (c # cs) = Some m" by simp
    then show ?thesis by (rule set_match_select_at)
  qed
qed

lemma set_select_candidate: "set (select_candidate s) \<subseteq> set s"
  by (auto simp: select_candidate_def split: option.splits dest: set_re_search_select)

lemma set_clean_query: "set (clean_query s) \<subseteq> insert (CHR '' '') (set s)"
proof -
  have "set (clean_query s) \<subseteq> set (re_sub_ws (str_replace [CHR 0x0A] '' '' (re_sub_fence s)))"
    by (simp add: clean_query_def Let_def set_strip)
  also have "\<dots> \<subseteq> insert (CHR '' '') (set (str_replace [CHR 0x0A] '' '' (re_sub_fence s)))"
    by (rule set_re_sub_ws)
  also have "\<dots> \<subseteq> insert (CHR '' '') (set (re_sub_fence s))"
    using set_str_replace [of "[CHR 0x0A]" "'' ''" "re_sub_fence s"] by auto
  also have "\<dots> \<subseteq> insert (CHR '' '') (set s)"
    using set_re_sub_fence [of s] by auto
  finally show ?thesis .
qed

lemma set_strip_special_tokens: "set (strip_special_tokens s) \<subseteq> set s"
proof -
  have r: "\<And>old t. set (str_replace old [] t) \<subseteq> set t"
    using set_str_replace [of _ "[]"] by simp
  show ?thesis
    unfolding strip_special_tokens_def Let_def
    by (meson r subset_trans)
qed

lemma after_last_label_semicolon:
  assumes "after_last_label s = Inr t" and "CHR '';'' \<notin> set s"
  shows "CHR '';'' \<notin> set t"
proof (cases "sublist ''SQL:'' (upper s)")
  case True
  with assms(1) have "t = last (str_split ''SQL:'' (upper s))"
    by (simp add: after_last_label_def py_last_def str_split_nonempty)
  then have "t \<in> set (str_split ''SQL:'' (upper s))"
    by (simp add: str_split_nonempty)
  then have "set t \<subseteq> set (upper s)" by (rule set_str_split)
  with assms(2) show ?thesis by (auto simp: set_upper_semicolon)
next
  case False
  with assms show ?thesis by (simp add: after_last_label_def)
qed

section \<open>Properties of \<open>extract_sql_query\<close>\<close>

text \<open>
  C6: \<open>extract_sql_query\<close> returns; when the cleaned query is non-empty and does not end
  with a semicolon the result is the cleaned query with one semicolon appended, and otherwise
  the cleaned query itself. For a response with no semicolon at all the cleaned query has
  none either, so a non-empty result ends with the one semicolon it contains.
\<close>

theorem extract_appends_one_semicolon:
  "\<exists>c. query_before_termination response = Inr c
      \<and> (c \<noteq> [] \<and> \<not> endswith c '';'' \<longrightarrow> extract_sql_query response = Inr (c @ '';''))
      \<and> (c = [] \<or> endswith c '';'' \<longrightarrow> extract_sql_query response = Inr c)
      \<and> (CHR '';'' \<notin> set response \<longrightarrow>
            CHR '';'' \<notin> set c \<and> (c \<noteq> [] \<longrightarrow> extract_sql_query response = Inr (c @ '';'')))"
proof -
  obtain t where t: "after_last_label (strip_special_tokens response) = Inr t"
    using after_last_label_returns by blast
  let ?c = "clean_query (select_candidate t)"
  have q: "query_before_termination response = Inr ?c"
    by (simp add: query_before_termination_def t)
  have e: "extract_sql_query response = Inr (terminate_query ?c)"
    by (simp add: extract_sql_query_def t)
  have n: "CHR '';'' \<notin> set ?c" if "CHR '';'' \<notin> set response"
  proof -
    from that have "CHR '';'' \<notin> set (strip_special_tokens response)"
      using set_strip_special_tokens by blast
    with t have "CHR '';'' \<notin> set t" by (rule after_last_label_semicolon)
    then have "CHR '';'' \<notin> set (select_candidate t)" using set_select_candidate by blast
    then show ?thesis using set_clean_query [of "select_candidate t"] by auto
  qed
  have ne: "\<not> endswith ?c '';''" if "CHR '';'' \<notin> set ?c"
    using that by (auto simp: endswith_def suffix_def)
  show ?thesis
    using q e n ne by (auto simp: terminate_query_def)
qed

theorem extract_appends_one_semicolon_witness:
  "query_before_termination ''select  1'' = Inr ''select 1''
   \<and> extract_sql_query ''select  1'' = Inr (''select 1'' @ '';'')
   \<and> CHR '';'' \<notin> set ''select  1''
   \<and> CHR '';'' \<notin> set ''select 1''"
proof -
  have q: "query_before_termination ''select  1'' = Inr ''select 1''" by code_simp
  have h: "CHR '';'' \<notin> set ''select  1''" by simp
  from extract_appends_one_semicolon [of "''select  1''"] q h show ?thesis by auto
qed


lemma match_select_at_select_then_semicolon:
  assumes "match_select_at (c # cs) = Some m"
  shows "select_then_semicolon (c # cs)"
proof -
  from assms have u: "upper (take 6 (c # cs)) = ''SELECT''"
    and s: "CHR '';'' \<in> set (drop 7 (c # cs))"
    by (simp_all add: match_select_at_def split: if_splits)
  have "drop 7 (c # cs) = drop 1 (drop 6 (c # cs))" by simp
  then have "set (drop 7 (c # cs)) \<subseteq> set (drop 6 (c # cs))"
    by (simp only: set_drop_subset)
  with s have "CHR '';'' \<in> set (drop 6 (c # cs))" by blast
  with u show ?thesis by (simp only: select_then_semicolon.simps) blast
qed

lemma re_search_select_select_then_semicolon:
  "re_search_select t = Some m \<Longrightarrow> select_then_semicolon t"
proof (induction t)
  case Nil
  then show ?case by simp
next
  case (Cons c cs)
  show ?case
  proof (cases "match_select_at (c # cs)")
    case None
    with Cons.prems have "re_search_select cs = Some m" by simp
    then have "select_then_semicolon cs" by (rule Cons.IH)
    then show ?thesis by (simp only: select_then_semicolon.simps) blast
  next
    case (Some m')
    then show ?thesis by (rule match_select_at_select_then_semicolon)
  qed
qed

section \<open>The cut at the last label\<close>

lemma label_no_overlap:
  assumes "prefix ''SQL:'' (pre @ ''SQL:'' @ post)"
  shows "pre = [] \<or> (\<exists>pre'. pre = ''SQL:'' @ pre')"
proof (cases pre)
  case Nil
  then show ?thesis by simp
next
  case p1: (Cons a1 r1)
  show ?thesis
  proof (cases r1)
    case Nil
    with assms p1 show ?thesis by simp
  next
    case p2: (Cons a2 r2)
    show ?thesis
    proof (cases r2)
      case Nil
      with assms p1 p2 show ?thesis by simp
    next
      case p3: (Cons a3 r3)
      show ?thesis
      proof (cases r3)
        case Nil
        with assms p1 p2 p3 show ?thesis by simp
      next
        case p4: (Cons a4 r4)
        with assms p1 p2 p3 show ?thesis by simp
      qed
    qed
  qed
qed

lemma str_split_no_occurrence:
  "\<not> sublist sep s \<Longrightarrow> str_split sep s = [s]"
proof (induction sep s rule: str_split.induct)
  case (1 sep)
  show ?case by simp
next
  case (2 sep c cs)
  from 2(3) have np: "\<not> prefix sep (c # cs)" using prefix_imp_sublist by blast
  from 2(3) have "\<not> sublist sep cs" by (auto simp: sublist_Cons_right)
  with 2(2) np have "str_split sep cs = [cs]" by simp
  with np show ?case by simp
qed

lemma str_split_step_other:
  assumes "\<not> prefix sep (c # cs)" and "str_split sep cs = q # qs"
  shows "str_split sep (c # cs) = (c # q) # qs"
  using assms by simp

lemma str_split_step_sep:
  assumes "sep \<noteq> []"
  shows "str_split sep (sep @ rest) = [] # str_split sep rest"
proof -
  from assms obtain a sep' where sep: "sep = a # sep'" by (cases sep) auto
  have "str_split sep (a # sep' @ rest) = [] # str_split sep (drop (length sep) (a # sep' @ rest))"
    by (simp add: sep)
  also have "drop (length sep) (a # sep' @ rest) = rest" by (simp add: sep)
  finally show ?thesis by (simp add: sep)
qed

lemma str_split_last_piece:
  assumes ne: "sep \<noteq> []"
    and no_overlap: "\<And>pre. prefix sep (pre @ sep @ post) \<Longrightarrow> pre = [] \<or> (\<exists>pre'. pre = sep @ pre')"
    and no_occ: "\<not> sublist sep post"
  shows "\<exists>ps. ps \<noteq> [] \<and> str_split sep (pre @ sep @ post) = ps @ [post]"
proof (induction pre rule: length_induct)
  case (1 pre)
  show ?case
  proof (cases "prefix sep (pre @ sep @ post)")
    case True
    from no_overlap [OF True] show ?thesis
    proof (elim disjE exE)
      assume "pre = []"
      then have "str_split sep (pre @ sep @ post) = [[]] @ [post]"
        using str_split_step_sep [OF ne, of post] str_split_no_occurrence [OF no_occ] by simp
      then show ?thesis by blast
    next
      fix pre' assume p: "pre = sep @ pre'"
      then have "length pre' < length pre" using ne by simp
      with 1 obtain ps where ps: "ps \<noteq> []" "str_split sep (pre' @ sep @ post) = ps @ [post]"
        by blast
      have "str_split sep (sep @ (pre' @ sep @ post)) = [] # str_split sep (pre' @ sep @ post)"
        by (rule str_split_step_sep [OF ne])
      then have "str_split sep (pre @ sep @ post) = ([] # ps) @ [post]"
        by (simp add: p ps(2))
      then show ?thesis by blast
    qed
  next
    case False
    then obtain c pre' where p: "pre = c # pre'" using ne by (cases pre) auto
    then have "length pre' < length pre" by simp
    with 1 obtain ps where ps: "ps \<noteq> []" "str_split sep (pre' @ sep @ post) = ps @ [post]"
      by blast
    then obtain q qs where q: "ps = q # qs" by (cases ps) auto
    from False have f: "\<not> prefix sep (c # (pre' @ sep @ post))"
      by (simp add: p)
    from ps(2) have "str_split sep (pre' @ sep @ post) = q # (qs @ [post])"
      by (simp add: q)
    from str_split_step_other [OF f this]
    have "str_split sep (pre @ sep @ post) = ((c # q) # qs) @ [post]"
      by (simp add: p)
    then show ?thesis by blast
  qed
qed

lemma str_split_last_label:
  assumes "\<not> sublist ''SQL:'' post"
  shows "\<exists>ps. ps \<noteq> [] \<and> str_split ''SQL:'' (pre @ ''SQL:'' @ post) = ps @ [post]"
  by (rule str_split_last_piece [OF _ label_no_overlap assms]) simp_all

lemma after_last_label_cut:
  assumes "upper lab = ''SQL:''" and "\<not> sublist ''SQL:'' (upper post)"
  shows "after_last_label (pre @ lab @ post) = Inr (upper post)"
proof -
  have u: "upper (pre @ lab @ post) = upper pre @ ''SQL:'' @ upper post"
    by (simp add: upper_append assms(1))
  have "sublist ''SQL:'' (upper (pre @ lab @ post))"
    unfolding u by (rule sublist_appendI)
  moreover obtain ps where "str_split ''SQL:'' (upper (pre @ lab @ post)) = ps @ [upper post]"
    unfolding u using str_split_last_label [OF assms(2)] by blast
  ultimately show ?thesis by (simp add: after_last_label_def py_last_def)
qed

lemma upper_take: "upper (take n s) = take n (upper s)"
  by (simp add: upper_def take_map)

lemma upper_drop: "upper (drop n s) = drop n (upper s)"
  by (simp add: upper_def drop_map)

lemma last_label_exists:
  assumes "sublist ''SQL:'' (upper s)"
  shows "\<exists>pre lab post. s = pre @ lab @ post \<and> upper lab = ''SQL:''
           \<and> \<not> sublist ''SQL:'' (upper post)"
  using assms
proof (induction s)
  case Nil
  then show ?case by (simp add: upper_def)
next
  case (Cons c cs)
  show ?case
  proof (cases "sublist ''SQL:'' (upper cs)")
    case True
    from Cons.IH [OF True] obtain pre lab post where
      "cs = pre @ lab @ post" "upper lab = ''SQL:''" "\<not> sublist ''SQL:'' (upper post)"
      by blast
    then have "c # cs = (c # pre) @ lab @ post \<and> upper lab = ''SQL:''
                 \<and> \<not> sublist ''SQL:'' (upper post)"
      by simp
    then show ?thesis by blast
  next
    case False
    have "upper (c # cs) = char_upper c # upper cs" by (simp add: upper_def)
    with Cons.prems False have p: "prefix ''SQL:'' (upper (c # cs))"
      by (simp only: sublist_Cons_right) blast
    let ?lab = "take 4 (c # cs)" and ?post = "drop 4 (c # cs)"
    have 1: "c # cs = [] @ ?lab @ ?post" by simp
    from p obtain zs where z: "upper (c # cs) = ''SQL:'' @ zs"
      unfolding prefix_def by blast
    have "upper ?lab = take 4 (upper (c # cs))" by (rule upper_take)
    also have "\<dots> = take 4 (''SQL:'' @ zs)" by (simp only: z)
    also have "\<dots> = ''SQL:''" by simp
    finally have 2: "upper ?lab = ''SQL:''" .
    have "?post = drop 3 cs" by simp
    then have "upper ?post = drop 3 (upper cs)" by (simp only: upper_drop)
    then have "suffix (upper ?post) (upper cs)" by (simp only: suffix_drop)
    then have "sublist (upper ?post) (upper cs)" by (rule suffix_imp_sublist)
    with False have 3: "\<not> sublist ''SQL:'' (upper ?post)"
      using sublist_order.order_trans by blast
    from 1 2 3 show ?thesis by blast
  qed
qed

text \<open>
  C5: when the label SQL: occurs in any case in the response (as it stands after the removal
  of the special-token markers), the response has a last occurrence of the label, and for
  the text \<open>post\<close> after it everything up to and including the label is discarded: the SELECT
  search and the later stages run on \<open>post\<close> alone, which the code has in upper case.
\<close>

theorem extract_after_last_label:
  assumes "sublist ''SQL:'' (upper (strip_special_tokens response))"
  shows "(\<exists>pre lab post. strip_special_tokens response = pre @ lab @ post
            \<and> upper lab = ''SQL:'' \<and> \<not> sublist ''SQL:'' (upper post))
       \<and> (\<forall>pre lab post. strip_special_tokens response = pre @ lab @ post
            \<and> upper lab = ''SQL:'' \<and> \<not> sublist ''SQL:'' (upper post)
            \<longrightarrow> extract_sql_query response
                  = Inr (terminate_query (clean_query (select_candidate (upper post)))))"
proof (intro conjI allI impI)
  show "\<exists>pre lab post. strip_special_tokens response = pre @ lab @ post
            \<and> upper lab = ''SQL:'' \<and> \<not> sublist ''SQL:'' (upper post)"
    using assms by (rule last_label_exists)
next
  fix pre lab post
  assume a: "strip_special_tokens response = pre @ lab @ post
            \<and> upper lab = ''SQL:'' \<and> \<not> sublist ''SQL:'' (upper post)"
  then have "after_last_label (pre @ lab @ post) = Inr (upper post)"
    by (intro after_last_label_cut) simp_all
  with a show "extract_sql_query response
                  = Inr (terminate_query (clean_query (select_candidate (upper post))))"
    by (simp add: extract_sql_query_def)
qed

theorem extract_after_last_label_witness:
  "sublist ''SQL:'' (upper (strip_special_tokens ''<bos>SQL: select 1; Sql: select  2;<eos>''))
   \<and> strip_special_tokens ''<bos>SQL: select 1; Sql: select  2;<eos>''
        = ''SQL: select 1; '' @ ''Sql:'' @ '' select  2;''
   \<and> upper ''Sql:'' = ''SQL:''
   \<and> \<not> sublist ''SQL:'' (upper '' select  2;'')
   \<and> extract_sql_query ''<bos>SQL: select 1; Sql: select  2;<eos>'' = Inr ''SELECT 2;''"
proof -
  have h: "sublist ''SQL:'' (upper (strip_special_tokens ''<bos>SQL: select 1; Sql: select  2;<eos>''))"
    by code_simp
  have d1: "strip_special_tokens ''<bos>SQL: select 1; Sql: select  2;<eos>''
        = ''SQL: select 1; '' @ ''Sql:'' @ '' select  2;''"
    by code_simp
  have d2: "upper ''Sql:'' = ''SQL:''" by code_simp
  have d3: "\<not> sublist ''SQL:'' (upper '' select  2;'')" by code_simp
  have v: "terminate_query (clean_query (select_candidate (upper '' select  2;''))) = ''SELECT 2;''"
    by code_simp
  from extract_after_last_label [OF h] d1 d2 d3
  have "extract_sql_query ''<bos>SQL: select 1; Sql: select  2;<eos>''
          = Inr (terminate_query (clean_query (select_candidate (upper '' select  2;''))))"
    by blast
  with h d1 d2 d3 v show ?thesis by simp
qed

section \<open>The cleaning stages on a matched statement\<close>

lemma str_replace_single:
  "str_replace [a] [b] s = map (\<lambda>c. if c = a then b else c) s"
  by (induction s) auto

lemma re_sub_ws_newline:
  "re_sub_ws (map (\<lambda>c. if c = CHR 0x0A then CHR '' '' else c) s) = re_sub_ws s"
proof (induction s rule: re_sub_ws.induct)
  case 1
  show ?case by simp
next
  case (2 c cs)
  let ?f = "\<lambda>c. if c = CHR 0x0A then CHR '' '' else c"
  have sp: "\<And>x. is_space (?f x) = is_space x" by (simp add: is_space_def)
  have dw: "dropWhile is_space (map ?f cs) = map ?f (dropWhile is_space cs)"
    by (simp add: dropWhile_map comp_def sp)
  show ?case
  proof (cases "is_space c")
    case True
    with 2(1) show ?thesis by (simp add: sp dw)
  next
    case False
    then have "?f c = c" by (auto simp: is_space_def)
    with False 2(2) show ?thesis by (simp add: sp)
  qed
qed

lemma clean_query_eq: "clean_query query = strip (re_sub_ws (re_sub_fence query))"
  by (simp add: clean_query_def Let_def str_replace_single re_sub_ws_newline)

lemma filter_dropWhile_not:
  "filter (\<lambda>c. \<not> P c) (dropWhile P xs) = filter (\<lambda>c. \<not> P c) xs"
  by (induction xs) simp_all

lemma filter_re_sub_ws:
  "filter (\<lambda>c. \<not> is_space c) (re_sub_ws s) = filter (\<lambda>c. \<not> is_space c) s"
proof (induction s rule: re_sub_ws.induct)
  case 1
  show ?case by simp
next
  case (2 c cs)
  have "is_space (CHR '' '')" by (simp add: is_space_def)
  with 2 show ?case by (simp add: filter_dropWhile_not)
qed

lemma filter_strip:
  "filter (\<lambda>c. \<not> is_space c) (strip s) = filter (\<lambda>c. \<not> is_space c) s"
proof -
  have "filter (\<lambda>c. \<not> is_space c) (strip s)
          = rev (filter (\<lambda>c. \<not> is_space c) (dropWhile is_space (rev (dropWhile is_space s))))"
    by (simp add: strip_def rev_filter)
  also have "\<dots> = rev (filter (\<lambda>c. \<not> is_space c) (rev (dropWhile is_space s)))"
    by (simp only: filter_dropWhile_not)
  also have "\<dots> = filter (\<lambda>c. \<not> is_space c) (dropWhile is_space s)"
    by (simp add: rev_filter)
  also have "\<dots> = filter (\<lambda>c. \<not> is_space c) s"
    by (simp only: filter_dropWhile_not)
  finally show ?thesis .
qed

lemma last_dropWhile:
  assumes "xs \<noteq> []" and "\<not> P (last xs)"
  shows "dropWhile P xs \<noteq> [] \<and> last (dropWhile P xs) = last xs"
  using assms by (induction xs) (auto split: if_splits)

lemma strip_keeps_last:
  assumes "s \<noteq> []" and "\<not> is_space (last s)"
  shows "strip s \<noteq> [] \<and> last (strip s) = last s"
proof -
  let ?t = "dropWhile is_space s"
  from last_dropWhile [where P = is_space, OF assms] have t: "?t \<noteq> []" "last ?t = last s" by simp_all
  then have "\<not> is_space (hd (rev ?t))" using assms(2) by (simp add: hd_rev)
  moreover have "rev ?t \<noteq> []" using t(1) by simp
  ultimately have "dropWhile is_space (rev ?t) = rev ?t"
    by (cases "rev ?t") auto
  then have "strip s = ?t" by (simp add: strip_def)
  with t show ?thesis by simp
qed

lemma re_sub_ws_keeps_last:
  assumes "s \<noteq> []" and "\<not> is_space (last s)"
  shows "re_sub_ws s \<noteq> [] \<and> last (re_sub_ws s) = last s"
  using assms
proof (induction s rule: re_sub_ws.induct)
  case 1
  then show ?case by simp
next
  case (2 c cs)
  show ?case
  proof (cases "is_space c")
    case True
    with 2(4) have cs: "cs \<noteq> []" by auto
    with 2(4) have l: "\<not> is_space (last cs)" by simp
    from last_dropWhile [where P = is_space, OF cs l] have d: "dropWhile is_space cs \<noteq> []"
      "last (dropWhile is_space cs) = last cs" by simp_all
    with 2(1) [OF True d(1)] l have "re_sub_ws (dropWhile is_space cs) \<noteq> []"
      "last (re_sub_ws (dropWhile is_space cs)) = last cs" by simp_all
    with True cs show ?thesis by simp
  next
    case False
    show ?thesis
    proof (cases "cs = []")
      case True
      with False show ?thesis by simp
    next
      case ne: False
      with 2(4) have "\<not> is_space (last cs)" by simp
      with 2(2) [OF False ne] ne False show ?thesis by simp
    qed
  qed
qed

lemma last_drop_less:
  assumes "n < length s"
  shows "drop n s \<noteq> [] \<and> last (drop n s) = last s"
  using assms by simp

lemma fence_before_semicolon:
  assumes "prefix [CHR 0x60, CHR 0x60, CHR 0x60] s" and "last s = CHR '';''"
  shows "3 < length s"
proof -
  from assms(1) obtain zs where zs: "s = [CHR 0x60, CHR 0x60, CHR 0x60] @ zs"
    unfolding prefix_def by blast
  have "zs \<noteq> []"
  proof
    assume "zs = []"
    with zs have "last s = CHR 0x60" by simp
    with assms(2) show False by simp
  qed
  then have "0 < length zs" by simp
  moreover have "length s = 3 + length zs" by (subst zs) simp
  ultimately show ?thesis by simp
qed

lemma fence_sql_before_semicolon:
  assumes "upper (take 3 (drop 3 s)) = ''SQL''" and "last s = CHR '';''"
  shows "6 < length s"
proof -
  from assms(1) have "length (upper (take 3 (drop 3 s))) = 3" by simp
  then have len6: "6 \<le> length s" by (simp add: upper_def)
  have "length s \<noteq> 6"
  proof
    assume l: "length s = 6"
    then have "s \<noteq> []" by auto
    then have "last s = s ! (length s - 1)" by (rule last_conv_nth)
    then have 1: "last s = s ! 5" by (simp add: l)
    have "upper (take 3 (drop 3 s)) ! 2 = char_upper (s ! 5)"
      by (simp add: upper_def l)
    with assms(1) have "char_upper (s ! 5) = CHR ''L''" by simp
    with 1 assms(2) have "char_upper (CHR '';'') = CHR ''L''" by simp
    moreover have "char_upper (CHR '';'') = CHR '';''" by (simp add: char_upper_semicolon)
    ultimately show False by simp
  qed
  with len6 show ?thesis by simp
qed

lemma re_sub_fence_keeps_semicolon:
  assumes "s \<noteq> []" and "last s = CHR '';''"
  shows "re_sub_fence s \<noteq> [] \<and> last (re_sub_fence s) = CHR '';''"
  using assms
proof (induction s rule: re_sub_fence.induct)
  case 1
  then show ?case by simp
next
  case (2 c cs)
  show ?case
  proof (cases "prefix [CHR 0x60, CHR 0x60, CHR 0x60] (c # cs)")
    case fence: True
    show ?thesis
    proof (cases "upper (take 3 (drop 3 (c # cs))) = ''SQL''")
      case True
      have e: "re_sub_fence (c # cs) = re_sub_fence (drop 6 (c # cs))"
        by (simp only: re_sub_fence.simps if_P [OF fence] if_P [OF True])
      from fence_sql_before_semicolon [OF True 2(5)] have "6 < length (c # cs)" .
      note d = last_drop_less [OF this]
      have "drop 6 (c # cs) \<noteq> []" using d by (rule conjunct1)
      moreover have "last (drop 6 (c # cs)) = CHR '';''" using d 2(5) by metis
      ultimately have "drop 6 (c # cs) \<noteq> []" "last (drop 6 (c # cs)) = CHR '';''" .
      from 2(1) [OF fence True this] show ?thesis unfolding e .
    next
      case False
      have e: "re_sub_fence (c # cs) = re_sub_fence (drop 3 (c # cs))"
        by (simp only: re_sub_fence.simps if_P [OF fence] if_not_P [OF False])
      from fence_before_semicolon [OF fence 2(5)] have "3 < length (c # cs)" .
      note d = last_drop_less [OF this]
      have "drop 3 (c # cs) \<noteq> []" using d by (rule conjunct1)
      moreover have "last (drop 3 (c # cs)) = CHR '';''" using d 2(5) by metis
      ultimately have "drop 3 (c # cs) \<noteq> []" "last (drop 3 (c # cs)) = CHR '';''" .
      from 2(2) [OF fence False this] show ?thesis unfolding e .
    qed
  next
    case False
    have e: "re_sub_fence (c # cs) = c # re_sub_fence cs"
      by (simp only: re_sub_fence.simps if_not_P [OF False])
    show ?thesis
    proof (cases "cs = []")
      case True
      with 2(5) e show ?thesis by simp
    next
      case ne: False
      with 2(5) have "last cs = CHR '';''" by simp
      from 2(3) [OF False ne this] e ne show ?thesis by simp
    qed
  qed
qed

lemma clean_query_keeps_semicolon:
  assumes "m \<noteq> []" and "last m = CHR '';''"
  shows "clean_query m \<noteq> [] \<and> endswith (clean_query m) '';''"
proof -
  have ns: "\<not> is_space (CHR '';'')" by (simp add: is_space_def)
  from re_sub_fence_keeps_semicolon [OF assms]
  have 1: "re_sub_fence m \<noteq> []" "last (re_sub_fence m) = CHR '';''" by simp_all
  from re_sub_ws_keeps_last [OF 1(1)] 1(2) ns
  have 2: "re_sub_ws (re_sub_fence m) \<noteq> []" "last (re_sub_ws (re_sub_fence m)) = CHR '';''"
    by simp_all
  from strip_keeps_last [OF 2(1)] 2(2) ns
  have 3: "strip (re_sub_ws (re_sub_fence m)) \<noteq> []"
    "last (strip (re_sub_ws (re_sub_fence m))) = CHR '';''" by simp_all
  then have "strip (re_sub_ws (re_sub_fence m)) = butlast (strip (re_sub_ws (re_sub_fence m))) @ '';''"
    by (metis append_butlast_last_id)
  then have "endswith (strip (re_sub_ws (re_sub_fence m))) '';''"
    unfolding endswith_def suffix_def by blast
  with 3(1) show ?thesis by (simp add: clean_query_eq)
qed

lemma match_select_at_shape:
  assumes "match_select_at s = Some m"
  shows "m \<noteq> [] \<and> last m = CHR '';'' \<and> prefix m s \<and> upper (take 6 m) = ''SELECT''"
proof -
  let ?d = "drop 7 s" and ?P = "\<lambda>c. c \<noteq> CHR '';''"
  from assms have m: "m = take 7 s @ takeWhile ?P ?d @ '';''"
    and u: "upper (take 6 s) = ''SELECT''" and l: "6 < length s"
    and semi: "CHR '';'' \<in> set ?d"
    by (simp_all add: match_select_at_def split: if_splits)
  from semi have ne: "dropWhile ?P ?d \<noteq> []" by auto
  then obtain x xs where x: "dropWhile ?P ?d = x # xs" by (cases "dropWhile ?P ?d") auto
  from ne have "\<not> ?P (hd (dropWhile ?P ?d))" by (rule hd_dropWhile)
  then have "x = CHR '';''" by (simp add: x)
  with x have x': "dropWhile ?P ?d = CHR '';'' # xs" by simp
  have 1: "takeWhile ?P ?d @ CHR '';'' # xs = ?d"
    using takeWhile_dropWhile_id [of ?P ?d] by (simp only: x')
  have 2: "take 7 s @ ?d = s" by (rule append_take_drop_id)
  have "m @ xs = take 7 s @ (takeWhile ?P ?d @ CHR '';'' # xs)" by (simp add: m)
  also have "\<dots> = s" by (simp only: 1 2)
  finally have "s = m @ xs" by (rule sym)
  then have p: "prefix m s" unfolding prefix_def by blast
  from l have t6: "take 6 m = take 6 s" by (simp add: m)
  have "upper (take 6 m) = ''SELECT''" by (simp only: t6 u)
  moreover have "m \<noteq> []" by (simp add: m)
  moreover have "last m = CHR '';''" by (simp add: m)
  ultimately show ?thesis using p by blast
qed

section \<open>The statement that \<open>extract_sql_query\<close> returns\<close>

text \<open>
  C1, as stated, fails: the fence markers are removed after the search (line 32), also
  inside the matched statement, so the result is not the matched statement with only its
  white space normalised.
\<close>

theorem extract_removes_fences:
  "select_statement ''select a ``` ;''
   \<and> strip (re_sub_ws ''select a ``` ;'') = ''select a ``` ;''
   \<and> extract_sql_query ''select a ``` ;'' = Inr ''select a ;''
   \<and> ''select a ;'' \<noteq> ''select a ``` ;''"
proof (intro conjI)
  show "select_statement ''select a ``` ;''" by code_simp
  show "strip (re_sub_ws ''select a ``` ;'') = ''select a ``` ;''" by code_simp
  show "extract_sql_query ''select a ``` ;'' = Inr ''select a ;''" by code_simp
  show "''select a ;'' \<noteq> ''select a ``` ;''" by simp
qed

text \<open>
  The label cut of lines 24 to 26 keeps a piece of the upper-cased response: the example of
  the specification comes out in upper case.
\<close>

lemma extract_label_example:
  "extract_sql_query ''SQL: select * from t;'' = Inr ''SELECT * FROM T;''"
  by code_simp

lemma takeWhile_until:
  "x \<notin> set b \<Longrightarrow> takeWhile (\<lambda>c. c \<noteq> x) (b @ x # post) = b"
  by (induction b) auto

lemma select_statement_matches:
  assumes "select_statement m"
  shows "match_select_at (m @ post) = Some m"
proof -
  let ?P = "\<lambda>c. c \<noteq> CHR '';''"
  define b where "b = butlast (drop 7 m)"
  from assms have u: "upper (take 6 m) = ''SELECT''" and l: "7 < length m"
    and sp: "is_space (m ! 6)" and la: "last m = CHR '';''" and nb: "CHR '';'' \<notin> set b"
    by (simp_all add: select_statement_def b_def)
  from l have dne: "drop 7 m \<noteq> []" by simp
  from l la have ld: "last (drop 7 m) = CHR '';''" by simp
  from append_butlast_last_id [OF dne] have "b @ [last (drop 7 m)] = drop 7 m"
    by (simp only: b_def)
  then have d: "drop 7 m = b @ '';''" by (simp only: ld)
  have t6: "take 6 (m @ post) = take 6 m" using l by simp
  have t7: "take 7 (m @ post) = take 7 m" using l by simp
  have n6: "(m @ post) ! 6 = m ! 6" using l by (simp add: nth_append)
  have "drop 7 (m @ post) = drop 7 m @ post" using l by simp
  then have d7: "drop 7 (m @ post) = b @ CHR '';'' # post" by (simp add: d)
  have tw: "takeWhile ?P (b @ CHR '';'' # post) = b"
    using nb by (rule takeWhile_until)
  have "take 7 m @ drop 7 m = m" by (rule append_take_drop_id)
  then have m: "take 7 m @ b @ '';'' = m" by (simp only: d)
  have c1: "upper (take 6 (m @ post)) = ''SELECT''" by (simp only: t6 u)
  have c2: "6 < length (m @ post)" using l by simp
  have c3: "is_space ((m @ post) ! 6)" by (simp only: n6 sp)
  have c4: "CHR '';'' \<in> set (drop 7 (m @ post))" by (simp only: d7) simp
  have cond: "upper (take 6 (m @ post)) = ''SELECT'' \<and> 6 < length (m @ post)
                \<and> is_space ((m @ post) ! 6) \<and> CHR '';'' \<in> set (drop 7 (m @ post))"
    using c1 c2 c3 c4 by blast
  have "match_select_at (m @ post)
          = Some (take 7 (m @ post) @ takeWhile ?P (drop 7 (m @ post)) @ '';'')"
    unfolding match_select_at_def by (rule if_P [OF cond])
  also have "\<dots> = Some (take 7 m @ b @ '';'')" by (simp only: t7 d7 tw)
  also have "\<dots> = Some m" by (simp only: m)
  finally show ?thesis .
qed

lemma match_select_at_statement:
  assumes "match_select_at s = Some m"
  shows "select_statement m \<and> prefix m s"
proof -
  let ?P = "\<lambda>c. c \<noteq> CHR '';''" and ?tw = "takeWhile (\<lambda>c. c \<noteq> CHR '';'') (drop 7 s)"
  from assms have m: "m = take 7 s @ ?tw @ '';''"
    and u: "upper (take 6 s) = ''SELECT''" and l: "6 < length s"
    and sp: "is_space (s ! 6)"
    by (simp_all add: match_select_at_def split: if_splits)
  from l have l7: "length (take 7 s) = 7" by simp
  have "take 6 m = take 6 s" using l by (simp add: m)
  then have 1: "upper (take 6 m) = ''SELECT''" by (simp only: u)
  have 2: "7 < length m" using l7 by (simp add: m)
  have "m ! 6 = take 7 s ! 6" using l7 by (simp add: m nth_append)
  then have 3: "is_space (m ! 6)" using sp by simp
  have 4: "last m = CHR '';''" by (simp add: m)
  have "drop 7 m = ?tw @ '';''" using l7 by (simp add: m)
  then have "butlast (drop 7 m) = ?tw" by simp
  then have 5: "CHR '';'' \<notin> set (butlast (drop 7 m))"
    by (auto dest: set_takeWhileD)
  from match_select_at_shape [OF assms] have "prefix m s" by simp
  with 1 2 3 4 5 show ?thesis by (simp add: select_statement_def)
qed

lemma first_statement_found:
  assumes "select_statement m"
    and "\<forall>pre' m' post'. pre @ m @ post = pre' @ m' @ post' \<and> select_statement m'
           \<longrightarrow> length pre \<le> length pre'"
  shows "re_search_select (pre @ m @ post) = Some m"
  using assms(2)
proof (induction pre)
  case Nil
  from assms(1) have "m \<noteq> []" by (auto simp: select_statement_def)
  then obtain c cs where cs: "m @ post = c # cs" by (cases m) auto
  from select_statement_matches [OF assms(1), of post]
  have "match_select_at (c # cs) = Some m" by (simp only: cs)
  then have "re_search_select (c # cs) = Some m" by simp
  then show ?case by (simp only: cs append_Nil)
next
  case (Cons c pre)
  have none: "match_select_at (c # pre @ m @ post) = None"
  proof (cases "match_select_at (c # pre @ m @ post)")
    case None
    then show ?thesis .
  next
    case (Some m')
    from match_select_at_statement [OF Some] obtain post' where
      "select_statement m'" "c # pre @ m @ post = m' @ post'"
      unfolding prefix_def by blast
    then have "(c # pre) @ m @ post = [] @ m' @ post' \<and> select_statement m'" by simp
    with Cons.prems have "length (c # pre) \<le> length ([] :: string)" by blast
    then show ?thesis by simp
  qed
  have "\<forall>pre' m' post'. pre @ m @ post = pre' @ m' @ post' \<and> select_statement m'
           \<longrightarrow> length pre \<le> length pre'"
  proof (intro allI impI)
    fix pre' m' post'
    assume a: "pre @ m @ post = pre' @ m' @ post' \<and> select_statement m'"
    then have "(c # pre) @ m @ post = (c # pre') @ m' @ post' \<and> select_statement m'" by simp
    with Cons.prems have "length (c # pre) \<le> length (c # pre')" by blast
    then show "length pre \<le> length pre'" by simp
  qed
  from Cons.IH [OF this] have "re_search_select (pre @ m @ post) = Some m" .
  with none have "re_search_select (c # (pre @ m @ post)) = Some m" by simp
  then show ?case by simp
qed

lemma no_earlier_statement:
  assumes "\<forall>i < length pre. match_select_at (drop i (pre @ m @ post)) = None"
  shows "\<forall>pre' m' post'. pre @ m @ post = pre' @ m' @ post' \<and> select_statement m'
           \<longrightarrow> length pre \<le> length pre'"
proof (intro allI impI)
  fix pre' m' post'
  assume a: "pre @ m @ post = pre' @ m' @ post' \<and> select_statement m'"
  show "length pre \<le> length pre'"
  proof (rule ccontr)
    assume "\<not> length pre \<le> length pre'"
    then have "length pre' < length pre" by simp
    with assms have "match_select_at (drop (length pre') (pre @ m @ post)) = None" by blast
    moreover have "drop (length pre') (pre @ m @ post) = m' @ post'"
      using a by simp
    moreover have "match_select_at (m' @ post') = Some m'"
      using a by (intro select_statement_matches) simp
    ultimately show False by simp
  qed
qed

text \<open>
  C1, amended: take a response with no SQL: label in any case (after the removal of the
  special-token markers), and in it the first well-formed statement \<open>m\<close>: the six letters
  of SELECT in any case, white space, and the text up to the next semicolon, with no
  well-formed statement starting at an earlier position. The result is \<open>m\<close> with the fence
  markers removed, the runs of white space collapsed to single spaces and the ends trimmed,
  and no semicolon is added. The characters other than white space are those of \<open>m\<close>
  without its fence markers, in their order and in their case.
\<close>

theorem extract_first_select_statement:
  assumes "\<not> sublist ''SQL:'' (upper (strip_special_tokens response))"
    and "strip_special_tokens response = pre @ m @ post"
    and "select_statement m"
    and "\<forall>pre' m' post'. strip_special_tokens response = pre' @ m' @ post' \<and> select_statement m'
           \<longrightarrow> length pre \<le> length pre'"
  shows "extract_sql_query response = Inr (strip (re_sub_ws (re_sub_fence m)))
       \<and> filter (\<lambda>c. \<not> is_space c) (strip (re_sub_ws (re_sub_fence m)))
           = filter (\<lambda>c. \<not> is_space c) (re_sub_fence m)"
proof -
  from assms(4) have "\<forall>pre' m' post'. pre @ m @ post = pre' @ m' @ post' \<and> select_statement m'
           \<longrightarrow> length pre \<le> length pre'"
    by (simp only: assms(2))
  from first_statement_found [OF assms(3) this]
  have f: "re_search_select (strip_special_tokens response) = Some m"
    by (simp only: assms(2))
  from assms(3) have sh: "m \<noteq> []" "last m = CHR '';''"
    by (auto simp: select_statement_def)
  from clean_query_keeps_semicolon [OF sh]
  have "terminate_query (clean_query m) = clean_query m" by (simp add: terminate_query_def)
  then have "extract_sql_query response = Inr (strip (re_sub_ws (re_sub_fence m)))"
    using assms(1) f
    by (simp add: extract_sql_query_def after_last_label_def select_candidate_def clean_query_eq)
  moreover have "filter (\<lambda>c. \<not> is_space c) (strip (re_sub_ws (re_sub_fence m)))
           = filter (\<lambda>c. \<not> is_space c) (re_sub_fence m)"
    by (simp only: filter_strip filter_re_sub_ws)
  ultimately show ?thesis by simp
qed

theorem extract_first_select_statement_witness:
  "\<not> sublist ''SQL:'' (upper (strip_special_tokens ''<bos>Hi select  a ``` From t;  more; <eos>''))
   \<and> strip_special_tokens ''<bos>Hi select  a ``` From t;  more; <eos>''
        = ''Hi '' @ ''select  a ``` From t;'' @ ''  more; ''
   \<and> select_statement ''select  a ``` From t;''
   \<and> extract_sql_query ''<bos>Hi select  a ``` From t;  more; <eos>'' = Inr ''select a From t;''"
proof -
  have h1: "\<not> sublist ''SQL:'' (upper (strip_special_tokens ''<bos>Hi select  a ``` From t;  more; <eos>''))"
    by code_simp
  have h2: "strip_special_tokens ''<bos>Hi select  a ``` From t;  more; <eos>''
        = ''Hi '' @ ''select  a ``` From t;'' @ ''  more; ''"
    by code_simp
  have h3: "select_statement ''select  a ``` From t;''"
    by code_simp
  have d0: "match_select_at (drop 0 (''Hi '' @ ''select  a ``` From t;'' @ ''  more; '')) = None"
    by code_simp
  have d1: "match_select_at (drop 1 (''Hi '' @ ''select  a ``` From t;'' @ ''  more; '')) = None"
    by code_simp
  have d2: "match_select_at (drop 2 (''Hi '' @ ''select  a ``` From t;'' @ ''  more; '')) = None"
    by code_simp
  have a: "\<forall>i < length ''Hi ''.
             match_select_at (drop i (''Hi '' @ ''select  a ``` From t;'' @ ''  more; '')) = None"
  proof (intro allI impI)
    fix i :: nat
    assume "i < length ''Hi ''"
    then have "i < 3" by simp
    then consider "i = 0" | "i = 1" | "i = 2" by linarith
    then show "match_select_at (drop i (''Hi '' @ ''select  a ``` From t;'' @ ''  more; '')) = None"
    proof cases
      case 1
      show ?thesis unfolding 1 by (rule d0)
    next
      case 2
      show ?thesis unfolding 2 by (rule d1)
    next
      case 3
      show ?thesis unfolding 3 by (rule d2)
    qed
  qed
  from no_earlier_statement [OF a]
  have h4: "\<forall>pre' m' post'.
              strip_special_tokens ''<bos>Hi select  a ``` From t;  more; <eos>'' = pre' @ m' @ post'
              \<and> select_statement m' \<longrightarrow> length ''Hi '' \<le> length pre'"
    by (simp only: h2)
  have v: "strip (re_sub_ws (re_sub_fence ''select  a ``` From t;'')) = ''select a From t;''"
    by code_simp
  from extract_first_select_statement [OF h1 h2 h3 h4]
  have "extract_sql_query ''<bos>Hi select  a ``` From t;  more; <eos>''
          = Inr (strip (re_sub_ws (re_sub_fence ''select  a ``` From t;'')))"
    by (rule conjunct1)
  then have "extract_sql_query ''<bos>Hi select  a ``` From t;  more; <eos>'' = Inr ''select a From t;''"
    by (simp only: v)
  with h1 h2 h3 show ?thesis by (intro conjI)
qed

section \<open>The whole response when no statement is found\<close>

lemma text_after_last_label_unlabelled:
  "\<not> sublist ''SQL:'' (upper t) \<Longrightarrow> text_after_last_label t = t"
proof (induction t)
  case Nil
  show ?case by simp
next
  case (Cons c cs)
  have u: "upper (c # cs) = char_upper c # upper cs" by (simp add: upper_def)
  from Cons.prems have "\<not> sublist ''SQL:'' (char_upper c # upper cs)" unfolding u .
  then have "\<not> (prefix ''SQL:'' (char_upper c # upper cs) \<or> sublist ''SQL:'' (upper cs))"
    unfolding sublist_Cons_right .
  then have p': "\<not> prefix ''SQL:'' (char_upper c # upper cs)"
    and q: "\<not> sublist ''SQL:'' (upper cs)"
    by blast+
  from p' have p: "\<not> prefix ''SQL:'' (upper (c # cs))" unfolding u .
  show ?case by (simp only: text_after_last_label.simps if_not_P [OF p] if_not_P [OF q])
qed

lemma extract_without_select_unlabelled:
  assumes "\<not> sublist ''SQL:'' (upper (strip_special_tokens response))"
    and "\<not> select_then_semicolon (strip_special_tokens response)"
  shows "extract_sql_query response = Inr (whole_cleaned_response response)"
proof -
  let ?t = "strip_special_tokens response"
  from assms(1) have l: "after_last_label ?t = Inr ?t" by (simp add: after_last_label_def)
  from assms(1) have s: "text_after_last_label ?t = ?t"
    by (rule text_after_last_label_unlabelled)
  from assms(2) have "re_search_select ?t = None"
    using re_search_select_select_then_semicolon by (cases "re_search_select ?t") auto
  then have c: "select_candidate ?t = ?t" by (simp add: select_candidate_def)
  show ?thesis
    by (simp add: extract_sql_query_def l c whole_cleaned_response_def s terminate_query_def
        clean_query_eq Let_def)
qed

text \<open>
  C7: when no SELECT followed by a semicolon is found, the result should be the whole
  response after cleaning: removal of the special-token markers, cut at the last label,
  removal of the fences, collapse of white space, and a final semicolon. On a response with
  a label the code returns that text in upper case, since the cut of lines 24 to 26 keeps a
  piece of \<open>response.upper()\<close>: here the cleaned response is \<open>I cannot answer;\<close> and the
  code returns \<open>I CANNOT ANSWER;\<close>.
\<close>

theorem extract_label_changes_case:
  "\<not> select_then_semicolon (strip_special_tokens ''Sql: ```I cannot  answer```'')
   \<and> whole_cleaned_response ''Sql: ```I cannot  answer```'' = ''I cannot answer;''
   \<and> extract_sql_query ''Sql: ```I cannot  answer```'' = Inr ''I CANNOT ANSWER;''"
proof (intro conjI)
  show "\<not> select_then_semicolon (strip_special_tokens ''Sql: ```I cannot  answer```'')"
    by code_simp
  show "whole_cleaned_response ''Sql: ```I cannot  answer```'' = ''I cannot answer;''"
    by code_simp
  show "extract_sql_query ''Sql: ```I cannot  answer```'' = Inr ''I CANNOT ANSWER;''"
    by code_simp
qed

text \<open>The same response without the label keeps its case.\<close>

lemma extract_without_label_example:
  "extract_sql_query ''```I cannot  answer```'' = Inr ''I cannot answer;''"
  by code_simp

end
